theory Spec2Isabelle
  imports Main "HOL-Library.Char_ord" "HOL-Library.List_Lexorder" "HOL-Library.Product_Lexorder"
begin

section \<open>Python string and integer primitives used by \<^verbatim>\<open>app.py\<close>\<close>

text \<open>
  A Python \<^verbatim>\<open>str\<close> is modelled as a \<^typ>\<open>string\<close>: a list of characters, each standing
  for the code point of the same number (0 to 255). Comparison of strings is Python's:
  lexicographic on code points, a proper prefix being smaller. Strings with a code point
  above 255 are outside the model; what the program does with them is not stated here.
\<close>

definition isspace :: "char \<Rightarrow> bool" where
  \<comment> \<open>\<^verbatim>\<open>str.isspace\<close> on one code point below 256: TAB, LF, VT, FF, CR, the separators
      28 to 31, the space, NEL (133) and the no-break space (160).\<close>
  "isspace c =
     (let n = (of_char c :: nat)
      in (9 \<le> n \<and> n \<le> 13) \<or> (28 \<le> n \<and> n \<le> 32) \<or> n = 133 \<or> n = 160)"

definition strip :: "string \<Rightarrow> string" where
  \<comment> \<open>\<^verbatim>\<open>s.strip()\<close>\<close>
  "strip s = rev (dropWhile isspace (rev (dropWhile isspace s)))"

function replace :: "string \<Rightarrow> string \<Rightarrow> string \<Rightarrow> string" where
  \<comment> \<open>\<^verbatim>\<open>s.replace(old, new)\<close> for a non-empty \<^verbatim>\<open>old\<close>: one pass from the left over the
      non-overlapping occurrences.\<close>
  "replace old new [] = []"
| "replace old new (c # cs) =
     (if old \<noteq> [] \<and> take (length old) (c # cs) = old
      then new @ replace old new (drop (length old) (c # cs))
      else c # replace old new cs)"
  by pat_completeness auto
termination
  by (relation "measure (\<lambda>(old, new, s). length s)") (auto simp: neq_Nil_conv)

definition lower_char :: "char \<Rightarrow> char" where
  \<comment> \<open>\<^verbatim>\<open>str.lower\<close> on one code point below 256: A to Z, and the upper-case letters of
      Latin-1 (192 to 222 but the multiplication sign 215), move up by 32.\<close>
  "lower_char c =
     (let n = (of_char c :: nat)
      in if (65 \<le> n \<and> n \<le> 90) \<or> (192 \<le> n \<and> n \<le> 222 \<and> n \<noteq> 215)
         then char_of (n + 32) else c)"

definition lower :: "string \<Rightarrow> string" where
  \<comment> \<open>\<^verbatim>\<open>s.lower()\<close>\<close>
  "lower s = map lower_char s"

fun split_on :: "char \<Rightarrow> string \<Rightarrow> string list" where
  \<comment> \<open>\<^verbatim>\<open>s.split(sep)\<close> for a separator of one character\<close>
  "split_on sep [] = [[]]"
| "split_on sep (c # cs) =
     (case split_on sep cs of
        [] \<Rightarrow> [[c]]
      | w # ws \<Rightarrow> (if c = sep then [] # w # ws else (c # w) # ws))"

definition first_line :: "string \<Rightarrow> string" where
  \<comment> \<open>\<^verbatim>\<open>s.split("\n", 1)[0]\<close>: what stands before the first line feed\<close>
  "first_line s = takeWhile (\<lambda>c. c \<noteq> CHR 0x0A) s"

fun join :: "string \<Rightarrow> string list \<Rightarrow> string" where
  \<comment> \<open>\<^verbatim>\<open>sep.join(parts)\<close>\<close>
  "join sep [] = []"
| "join sep [p] = p"
| "join sep (p # q # ps) = p @ sep @ join sep (q # ps)"


subsection \<open>Integers: \<^verbatim>\<open>str(i)\<close> and \<^verbatim>\<open>int(s)\<close>\<close>

text \<open>
  Python's integers are unbounded: \<^typ>\<open>int\<close>. The limit on the number of digits that
  recent interpreters put on the conversions (4300 by default) is not modelled: the
  integers converted here are message ids of the backend.
\<close>

definition digit_char :: "nat \<Rightarrow> char" where
  "digit_char d = char_of (48 + d)"

function digits :: "nat \<Rightarrow> string" where
  "digits n = (if n < 10 then [digit_char n] else digits (n div 10) @ [digit_char (n mod 10)])"
  by pat_completeness auto
termination
  by (relation "measure (\<lambda>n. n)") auto

definition str_int :: "int \<Rightarrow> string" where
  \<comment> \<open>\<^verbatim>\<open>str(i)\<close>\<close>
  "str_int i = (if i < 0 then CHR ''-'' # digits (nat (- i)) else digits (nat i))"

definition is_digit :: "char \<Rightarrow> bool" where
  "is_digit c = (let n = (of_char c :: nat) in 48 \<le> n \<and> n \<le> 57)"

definition digit_val :: "char \<Rightarrow> nat" where
  "digit_val c = of_char c - 48"

definition digits_val :: "string \<Rightarrow> nat" where
  "digits_val s = foldl (\<lambda>a c. 10 * a + digit_val c) 0 s"

definition int_literal :: "string \<Rightarrow> nat option" where
  \<comment> \<open>the digits of an integer literal: non-empty groups of decimal digits, single
      underscores between them\<close>
  "int_literal s =
     (let groups = split_on CHR ''_'' s
      in if list_all (\<lambda>g. g \<noteq> [] \<and> list_all is_digit g) groups
         then Some (digits_val (concat groups)) else None)"

definition int_of_str :: "string \<Rightarrow> int option" where
  \<comment> \<open>\<^verbatim>\<open>int(s)\<close>; \<open>None\<close> stands for the \<^verbatim>\<open>ValueError\<close>\<close>
  "int_of_str s =
     (case strip s of
        [] \<Rightarrow> None
      | c # cs \<Rightarrow>
          if c = CHR ''-'' then map_option (\<lambda>n. - int n) (int_literal cs)
          else if c = CHR ''+'' then map_option int (int_literal cs)
          else map_option int (int_literal (c # cs)))"

subsection \<open>Lists and dictionaries\<close>

definition slice_to :: "int \<Rightarrow> 'a list \<Rightarrow> 'a list" where
  \<comment> \<open>\<^verbatim>\<open>xs[:n]\<close>: a negative \<^verbatim>\<open>n\<close> counts from the end\<close>
  "slice_to n xs = (if 0 \<le> n then take (nat n) xs else take (length xs - nat (- n)) xs)"

definition sort_list :: "('a \<Rightarrow> 'k::linorder) \<Rightarrow> bool \<Rightarrow> 'a list \<Rightarrow> 'a list" where
  \<comment> \<open>\<^verbatim>\<open>xs.sort(key=key, reverse=reverse)\<close>. The sort is stable; with \<^verbatim>\<open>reverse\<close> the list
      is reversed, sorted and reversed again, so that equal keys keep their order.
      \<^const>\<open>sort_key\<close> is the stable insertion sort of the library.\<close>
  "sort_list key reverse xs = (if reverse then rev (sort_key key (rev xs)) else sort_key key xs)"

fun dict_set :: "('k \<times> 'v) list \<Rightarrow> 'k \<Rightarrow> 'v \<Rightarrow> ('k \<times> 'v) list" where
  \<comment> \<open>\<^verbatim>\<open>d[k] = v\<close> on a dictionary in insertion order: a key already there keeps its
      place and takes the new value\<close>
  "dict_set [] k v = [(k, v)]"
| "dict_set ((k', v') # d) k v = (if k' = k then (k, v) # d else (k', v') # dict_set d k v)"

datatype 'a attr = Missing | Attr 'a

definition getattr :: "'a attr \<Rightarrow> 'a \<Rightarrow> 'a" where
  \<comment> \<open>\<^verbatim>\<open>getattr(obj, name, default)\<close>, the attribute of the object given\<close>
  "getattr a d = (case a of Missing \<Rightarrow> d | Attr v \<Rightarrow> v)"

section \<open>The messaging backend and the data model\<close>

text \<open>
  The Telethon client is outside the repository: every call of it is a field of the
  record \<open>env\<close>, a function of the call's arguments that returns the value or the error
  raised. The pydantic check of a \<^verbatim>\<open>HttpUrl\<close> field and Python's \<^verbatim>\<open>repr\<close> of a string are
  parameters in the same way.
\<close>

datatype tg_error =
    UsernameInvalidError string
  | UsernameNotOccupiedError string
  | OtherError string string  \<comment> \<open>any other exception of the client: its class name and its text\<close>

datatype exn =
    Telethon tg_error
  | ValueError string
  | ValidationError "string list"  \<comment> \<open>pydantic: the fields refused\<close>
  | HTTPException int string  \<comment> \<open>status code and detail\<close>

fun tg_text :: "tg_error \<Rightarrow> string" where
  "tg_text (UsernameInvalidError m) = m"
| "tg_text (UsernameNotOccupiedError m) = m"
| "tg_text (OtherError c m) = m"

fun tg_class :: "tg_error \<Rightarrow> string" where
  "tg_class (UsernameInvalidError m) = ''UsernameInvalidError''"
| "tg_class (UsernameNotOccupiedError m) = ''UsernameNotOccupiedError''"
| "tg_class (OtherError c m) = c"

fun str_exn :: "exn \<Rightarrow> string" where
  \<comment> \<open>\<^verbatim>\<open>str(ex)\<close>\<close>
  "str_exn (Telethon e) = tg_text e"
| "str_exn (ValueError m) = m"
| "str_exn (ValidationError fs) = join '', '' fs"
| "str_exn (HTTPException c d) = str_int c @ '': '' @ d"

fun type_name :: "exn \<Rightarrow> string" where
  \<comment> \<open>\<^verbatim>\<open>type(ex).__name__\<close>\<close>
  "type_name (Telethon e) = tg_class e"
| "type_name (ValueError m) = ''ValueError''"
| "type_name (ValidationError fs) = ''ValidationError''"
| "type_name (HTTPException c d) = ''HTTPException''"

datatype peer = Username string | PeerId int

record entity =
  ent_id :: int
  ent_title :: "string option attr"
  first_name :: "string option attr"
  username :: "string option attr"

record tl_webpage =
  wp_url :: "string option"

record tl_media =
  webpage :: "tl_webpage option"

record tl_photo =
  photo_id :: int

record tl_document =
  mime_type :: "string option"
  doc_size :: "int option"

record tl_message =
  msg_id :: int
  message :: "string option"
  date :: int  \<comment> \<open>the publication time, as a number\<close>
  media :: "tl_media option"
  photo :: "tl_photo option"
  video :: "tl_document option"
  document :: "tl_document option"

datatype fetched = Message tl_message | NotMessage

record env =
  get_entity :: "peer \<Rightarrow> tg_error + entity"
  get_messages :: "entity \<Rightarrow> int \<Rightarrow> int \<Rightarrow> tg_error + fetched list"
  get_message :: "entity \<Rightarrow> int \<Rightarrow> tg_error + tl_message option"
  download_media :: "tl_message \<Rightarrow> tg_error + string"
  http_url :: "string \<Rightarrow> bool"
  repr :: "string \<Rightarrow> string"
  DEFAULT_CHANNELS :: "string list"

record NewsItem =
  item_id :: string
  channel_id :: int
  channel_username :: "string option"
  channel_title :: string
  title :: string
  item_text :: string
  source :: string
  sourceUrl :: "string option"
  url :: "string option"
  summary :: "string option"
  publishedAt :: int
  tags :: "string list"
  item_media :: "(string \<times> string) list option"

record NewsList =
  total :: int
  items :: "NewsItem list"
  next_offset :: "int option"

record response =
  body :: NewsList
  X_TG_Errors :: "string option"  \<comment> \<open>the header of that name, when set\<close>

record StreamingResponse =
  content :: string
  media_type :: string

definition status_code :: "exn + 'a \<Rightarrow> int" where
  \<comment> \<open>what FastAPI answers: 200 for a handler that returns, the code of an
      \<^verbatim>\<open>HTTPException\<close>, 500 for any other exception\<close>
  "status_code r =
     (case r of Inr v \<Rightarrow> 200 | Inl (HTTPException c d) \<Rightarrow> c | Inl other \<Rightarrow> 500)"

section \<open>Channel resolver\<close>

definition normalized :: "string \<Rightarrow> string" where
  \<comment> \<open>\<^verbatim>\<open>e = entity.strip().replace("https://t.me/", "").replace("@", "")\<close>\<close>
  "normalized entity = replace ''@'' [] (replace ''https://t.me/'' [] (strip entity))"

definition cannot_resolve :: "string \<Rightarrow> string \<Rightarrow> exn" where
  \<comment> \<open>\<^verbatim>\<open>HTTPException(400, f"Cannot resolve channel '{entity}': {ex}")\<close>\<close>
  "cannot_resolve entity ex =
     HTTPException 400 (''Cannot resolve channel '' @ [CHR 0x27] @ entity @ [CHR 0x27] @ '': '' @ ex)"

definition resolve_by_id :: "env \<Rightarrow> string \<Rightarrow> string \<Rightarrow> exn + entity" where
  \<comment> \<open>the inner \<^verbatim>\<open>try\<close>: \<^verbatim>\<open>get_entity(int(e))\<close>, any exception turned into the 400\<close>
  "resolve_by_id env entity e =
     (case int_of_str e of
        None \<Rightarrow>
          Inl (cannot_resolve entity (''invalid literal for int() with base 10: '' @ repr env e))
      | Some n \<Rightarrow>
          (case get_entity env (PeerId n) of
             Inl err \<Rightarrow> Inl (cannot_resolve entity (tg_text err))
           | Inr ent \<Rightarrow> Inr ent))"

definition resolve_channel :: "env \<Rightarrow> string \<Rightarrow> exn + entity" where
  "resolve_channel env entity =
     (let e = normalized entity
      in case get_entity env (Username e) of
           Inr ent \<Rightarrow> Inr ent
         | Inl (UsernameInvalidError m) \<Rightarrow> resolve_by_id env entity e
         | Inl (UsernameNotOccupiedError m) \<Rightarrow> resolve_by_id env entity e
         | Inl (OtherError c m) \<Rightarrow> Inl (cannot_resolve entity m))"

section \<open>Message normalizer\<close>

definition pick_title_and_url :: "tl_message \<Rightarrow> string \<times> string \<times> string option" where
  "pick_title_and_url msg =
     (let txt = strip (case message msg of None \<Rightarrow> [] | Some s \<Rightarrow> s);
          line = take 120 (first_line txt);
          title = (if line = [] then ''Post'' else line);
          url = (case media msg of
                   None \<Rightarrow> None
                 | Some md \<Rightarrow> (case webpage md of None \<Rightarrow> None | Some w \<Rightarrow> wp_url w))
      in (title, txt, url))"

definition new_NewsItem ::
  "env \<Rightarrow> string \<Rightarrow> int \<Rightarrow> string option \<Rightarrow> string option \<Rightarrow> string \<Rightarrow> string \<Rightarrow>
   string option \<Rightarrow> string option \<Rightarrow> int \<Rightarrow> exn + NewsItem" where
  \<comment> \<open>the constructor \<^verbatim>\<open>NewsItem(...)\<close> as \<^verbatim>\<open>fetch_one\<close> calls it: pydantic refuses
      \<^verbatim>\<open>None\<close> for the title of the channel (which is the source too) and a string that
      is no HTTP URL\<close>
  "new_NewsItem env i cid uname chan_title ttl txt src_url link published =
     (let refused =
            (if chan_title = None then [''channel_title'', ''source''] else []) @
            (case src_url of None \<Rightarrow> [] | Some u \<Rightarrow> if http_url env u then [] else [''sourceUrl'']) @
            (case link of None \<Rightarrow> [] | Some u \<Rightarrow> if http_url env u then [] else [''url''])
      in if refused \<noteq> [] then Inl (ValidationError refused)
         else Inr \<lparr> item_id = i, channel_id = cid, channel_username = uname,
                    channel_title = the chan_title, title = ttl, item_text = txt,
                    source = the chan_title, sourceUrl = src_url, url = link,
                    summary = None, publishedAt = published, tags = [],
                    item_media = None \<rparr>)"

section \<open>News aggregator\<close>

fun news_items :: "env \<Rightarrow> entity \<Rightarrow> fetched list \<Rightarrow> exn + NewsItem list" where
  \<comment> \<open>the loop \<^verbatim>\<open>for m in msgs\<close> of \<^verbatim>\<open>fetch_one\<close>\<close>
  "news_items env ent [] = Inr []"
| "news_items env ent (NotMessage # msgs) = news_items env ent msgs"
| "news_items env ent (Message m # msgs) =
     (case pick_title_and_url m of
        (ttl, txt, link) \<Rightarrow>
          if txt = [] then news_items env ent msgs
          else
            (let chan_title = getattr (ent_title ent) (getattr (first_name ent) (Some ''Channel''));
                 uname = getattr (username ent) None;
                 src_url = (case uname of
                              None \<Rightarrow> None
                            | Some u \<Rightarrow> if u = [] then None else Some (''https://t.me/'' @ u))
             in case new_NewsItem env (str_int (msg_id m)) (ent_id ent) uname chan_title
                       ttl txt src_url link (date m) of
                  Inl ex \<Rightarrow> Inl ex
                | Inr item \<Rightarrow>
                    (case news_items env ent msgs of
                       Inl ex \<Rightarrow> Inl ex
                     | Inr out \<Rightarrow> Inr (item # out))))"

type_synonym errors = "(string \<times> string) list"

definition fetch_one ::
  "env \<Rightarrow> int \<Rightarrow> int \<Rightarrow> string \<Rightarrow> errors \<Rightarrow> exn + NewsItem list \<times> errors" where
  \<comment> \<open>one task: the dictionary \<^verbatim>\<open>errors\<close> of the request goes in and comes out\<close>
  "fetch_one env limit offset_id ch errors =
     (case resolve_channel env ch of
        Inl (HTTPException c detail) \<Rightarrow> Inr ([], dict_set errors ch detail)
      | Inl ex \<Rightarrow> Inr ([], dict_set errors ch (type_name ex @ '': '' @ str_exn ex))
      | Inr ent \<Rightarrow>
          (case get_messages env ent limit offset_id of
             Inl err \<Rightarrow> Inl (Telethon err)
           | Inr msgs \<Rightarrow>
               (case news_items env ent msgs of
                  Inl ex \<Rightarrow> Inl ex
                | Inr out \<Rightarrow> Inr (out, errors))))"

text \<open>
  \<^verbatim>\<open>asyncio.gather\<close> runs the tasks of a request interleaved on one thread. A task
  touches the shared dictionary in one step, right before it returns, and nothing else
  is shared, so a run is given by the order in which the tasks finish. That order is not
  fixed by the program: it is the parameter \<open>sched\<close>, a list of task numbers. Numbers
  out of range and repetitions in it are dropped, and the tasks it leaves out finish
  last, in the order of the list of channels. \<^verbatim>\<open>gather\<close> hands the results back in the
  order of its arguments, and raises the exception of the first task that raises.
\<close>

definition finish_order :: "nat \<Rightarrow> nat list \<Rightarrow> nat list" where
  "finish_order n sched =
     (let named = remdups (filter (\<lambda>i. i < n) sched)
      in named @ filter (\<lambda>i. i \<notin> set named) [0..<n])"

fun run_tasks ::
  "(nat \<Rightarrow> 's \<Rightarrow> exn + 'a \<times> 's) \<Rightarrow> nat list \<Rightarrow> 's \<Rightarrow> exn + (nat \<times> 'a) list \<times> 's" where
  "run_tasks task [] s = Inr ([], s)"
| "run_tasks task (i # order) s =
     (case task i s of
        Inl ex \<Rightarrow> Inl ex
      | Inr (a, s') \<Rightarrow>
          (case run_tasks task order s' of
             Inl ex \<Rightarrow> Inl ex
           | Inr (finished, s'') \<Rightarrow> Inr ((i, a) # finished, s'')))"

definition gather ::
  "nat list \<Rightarrow> nat \<Rightarrow> (nat \<Rightarrow> 's \<Rightarrow> exn + 'a list \<times> 's) \<Rightarrow> 's \<Rightarrow> exn + 'a list list \<times> 's" where
  "gather sched n task s =
     (case run_tasks task (finish_order n sched) s of
        Inl ex \<Rightarrow> Inl ex
      | Inr (finished, s') \<Rightarrow>
          Inr (map (\<lambda>i. case map_of finished i of None \<Rightarrow> [] | Some a \<Rightarrow> a) [0..<n], s'))"

definition sort_results :: "string \<Rightarrow> NewsItem list \<Rightarrow> NewsItem list" where
  "sort_results sort' results =
     (if sort' = ''newest'' then sort_list publishedAt True results
      else if sort' = ''oldest'' then sort_list publishedAt False results
      else sort_list (\<lambda>x. (lower (source x), publishedAt x)) True results)"

definition next_offset_of :: "NewsItem list \<Rightarrow> int option" where
  \<comment> \<open>\<^verbatim>\<open>min(int(n.id) for n in results)\<close> for a page that is not empty, \<^verbatim>\<open>None\<close> when
      an \<^verbatim>\<open>int\<close> raises\<close>
  "next_offset_of results =
     (if results = [] then None
      else case those (map (\<lambda>n. int_of_str (item_id n)) results) of
             None \<Rightarrow> None
           | Some ids \<Rightarrow> Some (Min (set ids)))"

definition errors_header :: "errors \<Rightarrow> string" where
  \<comment> \<open>\<^verbatim>\<open>"; ".join(f"{k}:{v}" for k, v in errors.items())\<close>\<close>
  "errors_header errors = join ''; '' (map (\<lambda>(k, v). k @ '':'' @ v) errors)"

definition chan_list_of :: "env \<Rightarrow> string option \<Rightarrow> string list" where
  \<comment> \<open>\<^verbatim>\<open>[c.strip() for c in (channels.split(",") if channels else DEFAULT_CHANNELS)
      if c.strip()]\<close>\<close>
  "chan_list_of env channels =
     filter (\<lambda>c. c \<noteq> [])
       (map strip
          (case channels of
             None \<Rightarrow> DEFAULT_CHANNELS env
           | Some s \<Rightarrow> if s = [] then DEFAULT_CHANNELS env else split_on CHR '','' s))"

definition get_news ::
  "env \<Rightarrow> nat list \<Rightarrow> string option \<Rightarrow> int \<Rightarrow> int \<Rightarrow> string \<Rightarrow> exn + response" where
  \<comment> \<open>the handler of \<^verbatim>\<open>/api/tg/news\<close>, with the \<^verbatim>\<open>Response\<close> object that FastAPI passes.
      Assigning the header encodes its value in latin-1 and raises for a code point
      above 255; the strings of this model have none, so the assignment is total here.\<close>
  "get_news env sched channels limit offset_id sort' =
     (let chan_list = chan_list_of env channels
      in if chan_list = []
         then Inr \<lparr> body = \<lparr> total = 0, items = [], next_offset = None \<rparr>, X_TG_Errors = None \<rparr>
         else
           (case gather sched (length chan_list)
                   (\<lambda>i. fetch_one env limit offset_id (chan_list ! i)) [] of
              Inl ex \<Rightarrow> Inl ex
            | Inr (fetched, errors) \<Rightarrow>
                (let results = slice_to limit (sort_results sort' (concat fetched))
                 in Inr \<lparr> body = \<lparr> total = int (length results), items = results,
                                    next_offset = next_offset_of results \<rparr>,
                          X_TG_Errors = (if errors = [] then None
                                         else Some (errors_header errors)) \<rparr>)))"

section \<open>Media proxy\<close>

definition content_type :: "tl_message \<Rightarrow> string" where
  \<comment> \<open>the \<^verbatim>\<open>if\<close>/\<^verbatim>\<open>elif\<close> chain that picks \<^verbatim>\<open>mime\<close>; a mime type counts when it is
      neither \<^verbatim>\<open>None\<close> nor the empty string\<close>
  "content_type msg =
     (let vmime = (case video msg of None \<Rightarrow> None | Some v \<Rightarrow> mime_type v);
          dmime = (case document msg of None \<Rightarrow> None | Some d \<Rightarrow> mime_type d)
      in if vmime \<noteq> None \<and> vmime \<noteq> Some [] then the vmime
         else if dmime \<noteq> None \<and> dmime \<noteq> Some [] then the dmime
         else if photo msg \<noteq> None then ''image/jpeg''
         else ''application/octet-stream'')"

definition proxy_media :: "env \<Rightarrow> int \<Rightarrow> int \<Rightarrow> exn + StreamingResponse" where
  "proxy_media env channel_id' message_id =
     (case get_entity env (PeerId channel_id') of
        Inl err \<Rightarrow> Inl (Telethon err)
      | Inr ent \<Rightarrow>
          (case get_message env ent message_id of
             Inl err \<Rightarrow> Inl (Telethon err)
           | Inr None \<Rightarrow> Inl (HTTPException 404 ''Media not found'')
           | Inr (Some msg) \<Rightarrow>
               if photo msg = None \<and> video msg = None \<and> document msg = None
               then Inl (HTTPException 404 ''Media not found'')
               else
                 (case download_media env msg of
                    Inl err \<Rightarrow> Inl (Telethon err)
                  | Inr buf \<Rightarrow> Inr \<lparr> content = buf, media_type = content_type msg \<rparr>)))"

section \<open>Definitions used to state the properties\<close>

fun contains :: "string \<Rightarrow> string \<Rightarrow> bool" where
  \<comment> \<open>\<^verbatim>\<open>old in s\<close>: the string \<^verbatim>\<open>old\<close> occurs in \<^verbatim>\<open>s\<close>\<close>
  "contains old [] = (old = [])"
| "contains old (c # cs) = (take (length old) (c # cs) = old \<or> contains old cs)"

definition removeprefix :: "string \<Rightarrow> string \<Rightarrow> string" where
  \<comment> \<open>\<^verbatim>\<open>s.removeprefix(p)\<close>\<close>
  "removeprefix p s = (if take (length p) s = p then drop (length p) s else s)"

definition declared_mime :: "tl_document option \<Rightarrow> string option" where
  \<comment> \<open>the mime type that an attachment declares, when it is there and declares one\<close>
  "declared_mime d =
     (case d of
        None \<Rightarrow> None
      | Some doc \<Rightarrow>
          (case mime_type doc of None \<Rightarrow> None | Some m \<Rightarrow> if m = [] then None else Some m))"

definition spec_normalized :: "string \<Rightarrow> string" where
  \<comment> \<open>the normalization as the specification words it: strip the surrounding
      whitespace, strip a leading \<^verbatim>\<open>https://t.me/\<close>, strip any leading \<^verbatim>\<open>@\<close>\<close>
  "spec_normalized entity =
     dropWhile (\<lambda>c. c = CHR ''@'') (removeprefix ''https://t.me/'' (strip entity))"

fun messages_of :: "fetched list \<Rightarrow> tl_message list" where
  \<comment> \<open>the messages among what a fetch returns, service events left out\<close>
  "messages_of [] = []"
| "messages_of (Message m # ms) = m # messages_of ms"
| "messages_of (NotMessage # ms) = messages_of ms"

definition stripped_body :: "tl_message \<Rightarrow> string" where
  \<comment> \<open>the body of a message, stripped: \<^verbatim>\<open>(msg.message or "").strip()\<close>\<close>
  "stripped_body msg = strip (case message msg of None \<Rightarrow> [] | Some s \<Rightarrow> s)"

subsection \<open>One task, split into what it returns and what it records\<close>

definition task_out :: "env \<Rightarrow> int \<Rightarrow> int \<Rightarrow> string \<Rightarrow> exn + NewsItem list" where
  \<comment> \<open>what the task of a channel returns or raises\<close>
  "task_out env limit offset_id ch =
     (case fetch_one env limit offset_id ch [] of Inl ex \<Rightarrow> Inl ex | Inr (out, errs) \<Rightarrow> Inr out)"

definition channel_items :: "env \<Rightarrow> int \<Rightarrow> int \<Rightarrow> string \<Rightarrow> NewsItem list" where
  \<comment> \<open>the items that the task of a channel returns\<close>
  "channel_items env limit offset_id ch =
     (case task_out env limit offset_id ch of Inl ex \<Rightarrow> [] | Inr out \<Rightarrow> out)"

definition record_error :: "env \<Rightarrow> string \<Rightarrow> errors \<Rightarrow> errors" where
  \<comment> \<open>what the task of a channel does to the dictionary of errors\<close>
  "record_error env ch errs =
     (case resolve_channel env ch of
        Inl (HTTPException c detail) \<Rightarrow> dict_set errs ch detail
      | Inl ex \<Rightarrow> dict_set errs ch (type_name ex @ '': '' @ str_exn ex)
      | Inr ent \<Rightarrow> errs)"

definition errors_after :: "env \<Rightarrow> string list \<Rightarrow> nat list \<Rightarrow> errors" where
  \<comment> \<open>the dictionary of errors once the tasks have finished in the order given\<close>
  "errors_after env chans order = fold (\<lambda>i. record_error env (chans ! i)) order []"

subsection \<open>A backend to run the model on\<close>

definition post :: "int \<Rightarrow> string \<Rightarrow> int \<Rightarrow> tl_message" where
  "post i s d =
     \<lparr> msg_id = i, message = Some s, date = d, media = None, photo = None, video = None,
       document = None \<rparr>"

definition channel :: "int \<Rightarrow> string \<Rightarrow> string option \<Rightarrow> entity" where
  "channel i t u =
     \<lparr> ent_id = i, ent_title = Attr (Some t), first_name = Missing, username = Attr u \<rparr>"

definition demo_get_entity :: "peer \<Rightarrow> tg_error + entity" where
  "demo_get_entity p =
     (case p of
        Username u \<Rightarrow>
          if u = ''news'' then Inr (channel 1 ''News'' (Some ''news''))
          else if u = ''blog'' then Inr (channel 2 ''blog'' None)
          else if u = ''down'' then Inr (channel 3 ''Down'' None)
          else Inl (UsernameNotOccupiedError ''Nobody is using this username'')
      | PeerId n \<Rightarrow>
          if n = 1 then Inr (channel 1 ''News'' (Some ''news''))
          else if n = 2 then Inr (channel 2 ''blog'' None)
          else Inl (OtherError ''ValueError'' ''Could not find the input entity''))"

definition demo_get_messages :: "entity \<Rightarrow> int \<Rightarrow> int \<Rightarrow> tg_error + fetched list" where
  "demo_get_messages ent limit offset_id =
     (if ent_id ent = 1
      then Inr [Message (post 10 (''Hello'' @ [CHR 0x0A] @ ''world'') 500), NotMessage,
                Message (post 9 ''  '' 400), Message (post 8 ''Second'' 300)]
      else if ent_id ent = 2 then Inr [Message (post 7 ''Blog post'' 450)]
      else Inl (OtherError ''ConnectionError'' ''Connection lost''))"

definition demo_get_message :: "entity \<Rightarrow> int \<Rightarrow> tg_error + tl_message option" where
  "demo_get_message ent i =
     (if ent_id ent \<noteq> 1 then Inr None
      else if i = 10 then Inr (Some ((post 10 ''Hello'' 500) \<lparr> photo := Some \<lparr> photo_id = 77 \<rparr> \<rparr>))
      else if i = 8 then Inr (Some (post 8 ''Second'' 300))
      else if i = 6
      then Inr (Some ((post 6 ''Clip'' 200)
                  \<lparr> video := Some \<lparr> mime_type = Some ''video/mp4'', doc_size = Some 4096 \<rparr>,
                    document := Some \<lparr> mime_type = Some ''video/mp4'', doc_size = Some 4096 \<rparr> \<rparr>))
      else Inr None)"

definition demo_env :: env where
  "demo_env =
     \<lparr> get_entity = demo_get_entity,
       get_messages = demo_get_messages,
       get_message = demo_get_message,
       download_media = (\<lambda>m. Inr ''bytes''),
       http_url = (\<lambda>u. True),
       repr = (\<lambda>s. [CHR 0x27] @ s @ [CHR 0x27]),
       DEFAULT_CHANNELS = [] \<rparr>"

section \<open>Properties of the channel resolver\<close>

declare replace.simps [simp del]
declare contains.simps [simp del]

lemma replace_absent: "\<not> contains old s \<Longrightarrow> replace old new s = s"
  by (induction old new s rule: replace.induct) (auto simp: replace.simps contains.simps)

lemma replace_at_absent: "CHR ''@'' \<notin> set (replace ''@'' [] s)"
  by (induction "''@''" "[] :: string" s rule: replace.induct) (auto simp: replace.simps)

lemma replace_char_filter: "replace [a] [] s = filter (\<lambda>c. c \<noteq> a) s"
  by (induction s) (auto simp: replace.simps)

lemma replace_hit: "old \<noteq> [] \<Longrightarrow> replace old new (old @ r) = new @ replace old new r"
  by (cases old) (simp_all add: replace.simps)

lemma contains_miss: "old \<noteq> [] \<Longrightarrow> c \<noteq> hd old \<Longrightarrow> contains old (c # s) = contains old s"
  by (cases old) (auto simp: contains.simps)

lemma contains_skip:
  "old \<noteq> [] \<Longrightarrow> \<forall>c\<in>set as. c \<noteq> hd old \<Longrightarrow> contains old (as @ u) = contains old u"
  by (induction as) (simp_all add: contains_miss)

lemma replace_removeprefix:
  assumes "old \<noteq> []" "\<not> contains old (removeprefix old t)"
  shows "replace old [] t = removeprefix old t"
proof (cases "take (length old) t = old")
  case True
  then have t: "t = old @ removeprefix old t"
    unfolding removeprefix_def by (metis append_take_drop_id)
  have "replace old [] (old @ removeprefix old t) = removeprefix old t"
    using assms by (simp add: replace_hit replace_absent)
  with t show ?thesis by simp
next
  case False
  then show ?thesis using assms(2) by (simp add: removeprefix_def replace_absent)
qed

lemma replace_run:
  assumes "\<forall>c\<in>set as. c = a" "a \<notin> set u"
  shows "replace [a] [] (as @ u) = u"
  using assms
proof (induction as)
  case Nil
  have "\<not> contains [a] u" using Nil(2) by (induction u) (auto simp: contains.simps)
  then show ?case by (simp add: replace_absent)
next
  case (Cons b as)
  then show ?case by (simp add: replace.simps)
qed

lemma link_nonempty: "''https://t.me/'' \<noteq> []" "hd ''https://t.me/'' = CHR ''h''"
  by simp_all

lemma normalized_agrees:
  assumes "CHR ''@'' \<notin> set (spec_normalized s)" "\<not> contains ''https://t.me/'' (spec_normalized s)"
  shows "normalized s = spec_normalized s"
proof -
  define r where "r = removeprefix ''https://t.me/'' (strip s)"
  define as where "as = takeWhile (\<lambda>c. c = CHR ''@'') r"
  define u where "u = dropWhile (\<lambda>c. c = CHR ''@'') r"
  have r: "r = as @ u" by (simp add: as_def u_def)
  have as: "\<forall>c\<in>set as. c = CHR ''@''" unfolding as_def by (metis set_takeWhileD)
  have u: "spec_normalized s = u" by (simp only: spec_normalized_def u_def r_def)
  have "CHR ''@'' \<noteq> CHR ''h''" by simp
  with as have "\<forall>c\<in>set as. c \<noteq> hd ''https://t.me/''" unfolding link_nonempty(2) by metis
  then have "contains ''https://t.me/'' (as @ u) = contains ''https://t.me/'' u"
    by (rule contains_skip [OF link_nonempty(1)])
  then have nc: "\<not> contains ''https://t.me/'' r" using assms(2) unfolding u r by blast
  have "replace ''https://t.me/'' [] (strip s) = r"
    unfolding r_def by (rule replace_removeprefix [OF link_nonempty(1) nc [unfolded r_def]])
  then have "normalized s = replace ''@'' [] (as @ u)" by (simp only: normalized_def r)
  also have "\<dots> = u" by (rule replace_run [OF as assms(1) [unfolded u]])
  finally show ?thesis unfolding u .
qed

text \<open>
  C2 (as the claim states it, refuted). The claim has an \<^verbatim>\<open>@\<close> in the middle of the
  identifier left unchanged; \<^verbatim>\<open>str.replace\<close> removes every occurrence, so the
  identifier \<^verbatim>\<open>chan@news\<close> is looked up as \<^verbatim>\<open>channews\<close>.
\<close>

theorem normalized_inner_at_removed:
  "normalized ''chan@news'' = ''channews'' \<and> spec_normalized ''chan@news'' = ''chan@news''"
  by code_simp

text \<open>
  C2 (amended). The string looked up is the identifier, stripped, with every occurrence of
  \<^verbatim>\<open>https://t.me/\<close> removed (the one pass of \<^verbatim>\<open>str.replace\<close>) and then every \<^verbatim>\<open>@\<close>
  filtered out, wherever it stands: no \<^verbatim>\<open>@\<close> is left anywhere in it.
  It is the string of the specification (whitespace stripped, a leading \<^verbatim>\<open>https://t.me/\<close>
  removed, the leading \<^verbatim>\<open>@\<close> removed) whenever that string holds no \<^verbatim>\<open>@\<close> and no
  \<^verbatim>\<open>https://t.me/\<close>.
\<close>

theorem normalized_amended:
  "normalized s = filter (\<lambda>c. c \<noteq> CHR ''@'') (replace ''https://t.me/'' [] (strip s)) \<and>
   CHR ''@'' \<notin> set (normalized s) \<and>
   (CHR ''@'' \<notin> set (spec_normalized s) \<and> \<not> contains ''https://t.me/'' (spec_normalized s)
      \<longrightarrow> normalized s = spec_normalized s)"
proof (intro conjI impI)
  show "normalized s = filter (\<lambda>c. c \<noteq> CHR ''@'') (replace ''https://t.me/'' [] (strip s))"
    unfolding normalized_def by (rule replace_char_filter)
  show "CHR ''@'' \<notin> set (normalized s)"
    unfolding normalized_def by (rule replace_at_absent)
  assume "CHR ''@'' \<notin> set (spec_normalized s) \<and> \<not> contains ''https://t.me/'' (spec_normalized s)"
  then show "normalized s = spec_normalized s"
    using normalized_agrees [of s] by blast
qed

theorem normalized_amended_witness:
  "CHR ''@'' \<notin> set (spec_normalized '' https://t.me/@news '') \<and>
   \<not> contains ''https://t.me/'' (spec_normalized '' https://t.me/@news '') \<and>
   normalized '' https://t.me/@news '' = ''news'' \<and>
   spec_normalized '' https://t.me/@news '' = ''news''"
proof -
  have a: "spec_normalized '' https://t.me/@news '' = ''news''" by code_simp
  have b: "CHR ''@'' \<notin> set ''news''" by simp
  have c: "\<not> contains ''https://t.me/'' ''news''" by code_simp
  from b c have "CHR ''@'' \<notin> set (spec_normalized '' https://t.me/@news '') \<and>
      \<not> contains ''https://t.me/'' (spec_normalized '' https://t.me/@news '')"
    unfolding a by (rule conjI)
  from normalized_amended [THEN conjunct2, THEN conjunct2, THEN mp, OF this]
  have "normalized '' https://t.me/@news '' = spec_normalized '' https://t.me/@news ''" .
  with a b c show ?thesis by (simp only: simp_thms)
qed

section \<open>Properties of the media proxy\<close>

text \<open>
  C8. The proxy answers 404 (\<^verbatim>\<open>Media not found\<close>) exactly when the channel was resolved
  and the message fetched is missing or has no photo, no video and no document; no other
  path gives the status 404. When the message has one of the three and the download
  returns, the answer is the stream of the bytes downloaded.
\<close>

theorem proxy_media_not_found:
  "(proxy_media env cid mid = Inl (HTTPException 404 ''Media not found'')) =
     (\<exists>ent. get_entity env (PeerId cid) = Inr ent \<and>
        (get_message env ent mid = Inr None \<or>
         (\<exists>msg. get_message env ent mid = Inr (Some msg) \<and>
            photo msg = None \<and> video msg = None \<and> document msg = None))) \<and>
   (status_code (proxy_media env cid mid) = 404) =
     (proxy_media env cid mid = Inl (HTTPException 404 ''Media not found'')) \<and>
   (\<forall>ent msg buf.
      get_entity env (PeerId cid) = Inr ent \<and> get_message env ent mid = Inr (Some msg) \<and>
      (photo msg \<noteq> None \<or> video msg \<noteq> None \<or> document msg \<noteq> None) \<and>
      download_media env msg = Inr buf
      \<longrightarrow> proxy_media env cid mid = Inr \<lparr> content = buf, media_type = content_type msg \<rparr>)"
proof (intro conjI allI impI)
  show "(proxy_media env cid mid = Inl (HTTPException 404 ''Media not found'')) =
     (\<exists>ent. get_entity env (PeerId cid) = Inr ent \<and>
        (get_message env ent mid = Inr None \<or>
         (\<exists>msg. get_message env ent mid = Inr (Some msg) \<and>
            photo msg = None \<and> video msg = None \<and> document msg = None)))"
    by (simp add: proxy_media_def split: sum.splits option.splits)
  show "(status_code (proxy_media env cid mid) = 404) =
     (proxy_media env cid mid = Inl (HTTPException 404 ''Media not found''))"
    by (simp add: proxy_media_def status_code_def split: sum.splits option.splits)
next
  fix ent msg buf
  assume "get_entity env (PeerId cid) = Inr ent \<and> get_message env ent mid = Inr (Some msg) \<and>
      (photo msg \<noteq> None \<or> video msg \<noteq> None \<or> document msg \<noteq> None) \<and>
      download_media env msg = Inr buf"
  then show "proxy_media env cid mid = Inr \<lparr> content = buf, media_type = content_type msg \<rparr>"
    by (auto simp: proxy_media_def)
qed

theorem proxy_media_not_found_witness:
  "proxy_media demo_env 1 10 = Inr \<lparr> content = ''bytes'', media_type = ''image/jpeg'' \<rparr> \<and>
   proxy_media demo_env 1 8 = Inl (HTTPException 404 ''Media not found'') \<and>
   get_message demo_env (channel 1 ''News'' (Some ''news'')) 8 = Inr (Some (post 8 ''Second'' 300)) \<and>
   status_code (proxy_media demo_env 1 5) = 404 \<and>
   get_message demo_env (channel 1 ''News'' (Some ''news'')) 5 = Inr None"
proof -
  let ?ent = "channel 1 ''News'' (Some ''news'')"
  let ?m = "(post 10 ''Hello'' 500) \<lparr> photo := Some \<lparr> photo_id = 77 \<rparr> \<rparr>"
  have e: "get_entity demo_env (PeerId 1) = Inr ?ent" by code_simp
  have m10: "get_message demo_env ?ent 10 = Inr (Some ?m)" by code_simp
  have m8: "get_message demo_env ?ent 8 = Inr (Some (post 8 ''Second'' 300))" by code_simp
  have m5: "get_message demo_env ?ent 5 = Inr None" by code_simp
  have p: "photo ?m \<noteq> None" "download_media demo_env ?m = Inr ''bytes''"
    "content_type ?m = ''image/jpeg''" by code_simp+
  have n8: "photo (post 8 ''Second'' 300) = None" "video (post 8 ''Second'' 300) = None"
    "document (post 8 ''Second'' 300) = None" by code_simp+
  have "proxy_media demo_env 1 10 = Inr \<lparr> content = ''bytes'', media_type = content_type ?m \<rparr>"
    using proxy_media_not_found [of demo_env 1 10] e m10 p(1,2) by blast
  moreover have "proxy_media demo_env 1 8 = Inl (HTTPException 404 ''Media not found'')"
    using proxy_media_not_found [of demo_env 1 8] e m8 n8 by blast
  moreover have "status_code (proxy_media demo_env 1 5) = 404"
    using proxy_media_not_found [of demo_env 1 5] e m5 by blast
  ultimately show ?thesis using m8 m5 p(3) by (simp only: simp_thms)
qed

text \<open>
  C9. For every message the proxy serves, the content type is the mime type of the video
  when it declares one (neither \<^verbatim>\<open>None\<close> nor empty, as Python's truth test reads it), else
  the mime type of the document when it declares one, else \<^verbatim>\<open>image/jpeg\<close> for a message
  with a photo, else \<^verbatim>\<open>application/octet-stream\<close>.
\<close>

theorem proxy_media_content_type:
  "proxy_media env cid mid = Inr resp \<Longrightarrow>
     \<exists>ent msg. get_entity env (PeerId cid) = Inr ent \<and>
       get_message env ent mid = Inr (Some msg) \<and>
       media_type resp =
         (case declared_mime (video msg) of
            Some m \<Rightarrow> m
          | None \<Rightarrow>
              (case declared_mime (document msg) of
                 Some m \<Rightarrow> m
               | None \<Rightarrow>
                   if photo msg \<noteq> None then ''image/jpeg'' else ''application/octet-stream''))"
  by (auto simp: proxy_media_def content_type_def declared_mime_def
           split: sum.splits option.splits if_splits)

theorem proxy_media_content_type_witness:
  "proxy_media demo_env 1 10 = Inr \<lparr> content = ''bytes'', media_type = ''image/jpeg'' \<rparr> \<and>
   (\<exists>ent msg. get_entity demo_env (PeerId 1) = Inr ent \<and>
      get_message demo_env ent 10 = Inr (Some msg) \<and>
      declared_mime (video msg) = None \<and> declared_mime (document msg) = None \<and>
      photo msg \<noteq> None)"
proof -
  let ?ent = "channel 1 ''News'' (Some ''news'')"
  let ?m = "(post 10 ''Hello'' 500) \<lparr> photo := Some \<lparr> photo_id = 77 \<rparr> \<rparr>"
  have r: "proxy_media demo_env 1 10 = Inr \<lparr> content = ''bytes'', media_type = ''image/jpeg'' \<rparr>"
    by code_simp
  have e: "get_entity demo_env (PeerId 1) = Inr ?ent" by code_simp
  have m10: "get_message demo_env ?ent 10 = Inr (Some ?m)" by code_simp
  have d: "declared_mime (video ?m) = None" "declared_mime (document ?m) = None"
    "photo ?m \<noteq> None" by code_simp+
  from proxy_media_content_type [OF r] obtain ent msg where
    "get_entity demo_env (PeerId 1) = Inr ent" "get_message demo_env ent 10 = Inr (Some msg)"
    by blast
  with e m10 have "ent = ?ent" "msg = ?m" by simp_all
  with r e m10 d show ?thesis by blast
qed

section \<open>Properties of the news aggregator\<close>

subsection \<open>Integers and their decimal strings\<close>

lemma of_char_digit_char: "d < 10 \<Longrightarrow> of_char (digit_char d) = (48 + d :: nat)"
  by (simp add: digit_char_def)

lemma is_digit_digit_char: "d < 10 \<Longrightarrow> is_digit (digit_char d)"
  by (simp add: is_digit_def of_char_digit_char)

lemma digit_val_digit_char: "d < 10 \<Longrightarrow> digit_val (digit_char d) = d"
  by (simp add: digit_val_def of_char_digit_char)

lemma isspace_digit_char: "d < 10 \<Longrightarrow> \<not> isspace (digit_char d)"
  by (simp add: isspace_def of_char_digit_char)

lemma digit_char_not_sign: "d < 10 \<Longrightarrow> digit_char d \<noteq> CHR ''-'' \<and> digit_char d \<noteq> CHR ''+'' \<and> digit_char d \<noteq> CHR ''_''"
  using of_char_digit_char [of d] by (auto simp del: of_char_digit_char)


declare digits.simps [simp del]

lemma digits_digits: "\<forall>c\<in>set (digits n). \<exists>d<10. c = digit_char d"
proof (induction n rule: digits.induct)
  case (1 n)
  show ?case
  proof (cases "n < 10")
    case True
    then show ?thesis by (subst digits.simps) auto
  next
    case False
    have "\<exists>d<10. digit_char (n mod 10) = digit_char d"
      by (intro exI [of _ "n mod 10"]) simp
    with False 1 show ?thesis by (subst digits.simps) simp
  qed
qed

lemma digits_nonempty: "digits n \<noteq> []"
  by (subst digits.simps) simp

lemma digits_val_snoc: "digits_val (s @ [c]) = 10 * digits_val s + digit_val c"
  by (simp add: digits_val_def)

lemma digits_val_digits: "digits_val (digits n) = n"
proof (induction n rule: digits.induct)
  case (1 n)
  show ?case
  proof (cases "n < 10")
    case True
    then show ?thesis by (subst digits.simps) (simp add: digits_val_def digit_val_digit_char)
  next
    case False
    with 1 have "digits_val (digits (n div 10)) = n div 10" by simp
    with False show ?thesis
      by (subst digits.simps) (simp add: digits_val_snoc digit_val_digit_char)
  qed
qed

lemma strip_unchanged:
  assumes "s \<noteq> []" "\<not> isspace (hd s)" "\<not> isspace (last s)"
  shows "strip s = s"
proof -
  have keep: "dropWhile P xs = xs" if "xs \<noteq> []" "\<not> P (hd xs)" for P and xs :: string
    using that by (cases xs) simp_all
  have "hd (rev s) = last s" using assms(1) by (simp add: hd_rev)
  with assms have "dropWhile isspace (rev s) = rev s" by (intro keep) simp_all
  moreover from assms have "dropWhile isspace s = s" by (intro keep)
  ultimately show ?thesis by (simp add: strip_def)
qed

lemma split_on_absent: "sep \<notin> set s \<Longrightarrow> split_on sep s = [s]"
  by (induction s) auto

lemma int_literal_digits: "int_literal (digits n) = Some n"
proof -
  have d: "\<forall>c\<in>set (digits n). \<exists>d<10. c = digit_char d" by (rule digits_digits)
  then have "CHR ''_'' \<notin> set (digits n)" by (metis digit_char_not_sign)
  then have "split_on CHR ''_'' (digits n) = [digits n]" by (rule split_on_absent)
  moreover have "list_all is_digit (digits n)"
    unfolding list_all_iff by (metis d is_digit_digit_char)
  ultimately show ?thesis by (simp add: int_literal_def digits_nonempty digits_val_digits)
qed

lemma digits_ends:
  "\<exists>d<10. hd (digits n) = digit_char d" "\<exists>d<10. last (digits n) = digit_char d"
  using digits_digits [of n] digits_nonempty [of n] hd_in_set last_in_set by blast+

lemma int_of_str_str_int: "int_of_str (str_int i) = Some i"
proof (cases "i < 0")
  case True
  let ?ds = "digits (nat (- i))"
  have "\<not> isspace (last ?ds)"
    by (metis digits_ends(2) isspace_digit_char)
  then have "\<not> isspace (last (CHR ''-'' # ?ds))" by (simp add: digits_nonempty)
  moreover have "\<not> isspace CHR ''-''" by (simp add: isspace_def)
  ultimately have "strip (CHR ''-'' # ?ds) = CHR ''-'' # ?ds"
    by (intro strip_unchanged) simp_all
  with True show ?thesis by (simp add: int_of_str_def str_int_def int_literal_digits)
next
  case False
  let ?ds = "digits (nat i)"
  obtain c cs where ds: "?ds = c # cs" using digits_nonempty [of "nat i"] by (cases ?ds) auto
  from digits_ends(1) [of "nat i"] ds obtain d where d: "d < 10" "c = digit_char d"
    by (metis list.sel(1))
  have "\<not> isspace (hd ?ds)" "\<not> isspace (last ?ds)"
    by (metis digits_ends isspace_digit_char)+
  then have "strip ?ds = ?ds" using digits_nonempty by (intro strip_unchanged)
  moreover have "c \<noteq> CHR ''-''" "c \<noteq> CHR ''+''" by (metis d digit_char_not_sign)+
  moreover have "int_literal (c # cs) = Some (nat i)" using int_literal_digits [of "nat i"] ds by simp
  ultimately show ?thesis using False by (simp add: int_of_str_def str_int_def ds)
qed

subsection \<open>Tasks and their gathering\<close>

lemma resolve_channel_error:
  "resolve_channel env ch = Inl ex \<Longrightarrow> \<exists>d. ex = HTTPException 400 d"
  by (auto simp: resolve_channel_def resolve_by_id_def cannot_resolve_def Let_def
           split: sum.splits tg_error.splits option.splits)

lemma fetch_one_split:
  "fetch_one env limit offset_id ch errs =
     (case task_out env limit offset_id ch of
        Inl ex \<Rightarrow> Inl ex
      | Inr out \<Rightarrow> Inr (out, record_error env ch errs))"
  by (simp add: fetch_one_def task_out_def record_error_def split: sum.splits exn.splits)

lemma run_tasks_Inr:
  "run_tasks (\<lambda>i s. case out i of Inl e \<Rightarrow> Inl e | Inr a \<Rightarrow> Inr (a, upd i s)) order s = Inr (fin, s')
     \<longleftrightarrow> (\<forall>i\<in>set order. \<exists>a. out i = Inr a) \<and>
          fin = map (\<lambda>i. (i, projr (out i))) order \<and> s' = fold upd order s"
proof (induction order arbitrary: s fin s')
  case Nil
  show ?case by auto
next
  case (Cons i order)
  let ?task = "\<lambda>i s. case out i of Inl e \<Rightarrow> Inl e | Inr a \<Rightarrow> Inr (a, upd i s)"
  show ?case
  proof (cases "out i")
    case (Inl e)
    then show ?thesis by simp
  next
    case (Inr a)
    show ?thesis
    proof (cases "run_tasks ?task order (upd i s)")
      case (Inl e)
      with Cons [of "upd i s"] Inr show ?thesis by auto
    next
      case r: (Inr p)
      obtain fin' s'' where p: "p = (fin', s'')" by (cases p)
      with Cons [of "upd i s" fin' s''] r Inr show ?thesis by auto
    qed
  qed
qed

lemma set_finish_order: "set (finish_order n sched) = {0..<n}"
  by (auto simp: finish_order_def Let_def)

lemma distinct_finish_order: "distinct (finish_order n sched)"
  by (auto simp: finish_order_def Let_def)

lemma gather_Inr:
  "gather sched n (\<lambda>i s. case out i of Inl e \<Rightarrow> Inl e | Inr a \<Rightarrow> Inr (a, upd i s)) s = Inr (fetched, s')
     \<longleftrightarrow> (\<forall>i<n. \<exists>a. out i = Inr a) \<and>
          fetched = map (\<lambda>i. projr (out i)) [0..<n] \<and> s' = fold upd (finish_order n sched) s"
proof -
  let ?task = "\<lambda>i s. case out i of Inl e \<Rightarrow> Inl e | Inr a \<Rightarrow> Inr (a, upd i s)"
  let ?order = "finish_order n sched"
  let ?fin = "map (\<lambda>i. (i, projr (out i))) ?order"
  have look: "map (\<lambda>i. case map_of ?fin i of None \<Rightarrow> [] | Some a \<Rightarrow> a) [0..<n] =
        map (\<lambda>i. projr (out i)) [0..<n]"
    by (rule map_cong) (simp_all add: map_of_map_restrict restrict_map_def set_finish_order)
  show ?thesis
  proof (cases "run_tasks ?task ?order s")
    case (Inl e)
    then have "\<not> (\<forall>i\<in>set ?order. \<exists>a. out i = Inr a)"
      using run_tasks_Inr [where out = out and upd = upd and order = ?order and s = s]
      by (metis Inl_Inr_False)
    with Inl show ?thesis by (auto simp: gather_def set_finish_order)
  next
    case (Inr p)
    obtain fin s'' where p: "p = (fin, s'')" by (cases p)
    from Inr p run_tasks_Inr [where out = out and upd = upd and order = ?order and s = s
        and fin = fin and s' = s'']
    have *: "\<forall>i\<in>set ?order. \<exists>a. out i = Inr a" "fin = ?fin" "s'' = fold upd ?order s"
      by simp_all
    from Inr p * look show ?thesis by (auto simp: gather_def set_finish_order)
  qed
qed

lemma returned: "\<not> isl x \<Longrightarrow> x = Inr (projr x)"
  by (cases x) simp_all

lemma returned_pair: "\<not> isl x \<Longrightarrow> x = Inr (fst (projr x), snd (projr x))"
  by (cases x) simp_all

subsection \<open>The page returned\<close>

lemma sort_results_Nil: "sort_results sort' [] = []"
  by (simp add: sort_results_def sort_list_def)

lemma slice_to_Nil: "slice_to n [] = []"
  by (simp add: slice_to_def)

lemma map_index: "map (\<lambda>i. f (xs ! i)) [0..<length xs] = map f xs"
proof -
  have "map (\<lambda>i. f (xs ! i)) [0..<length xs] = map f (map (nth xs) [0..<length xs])"
    by (simp add: o_def)
  then show ?thesis by (simp only: map_nth)
qed


lemma task_eq: "(\<lambda>i. fetch_one env limit offset_id (cl ! i)) =
        (\<lambda>i s. case task_out env limit offset_id (cl ! i) of Inl e \<Rightarrow> Inl e
                | Inr a \<Rightarrow> Inr (a, record_error env (cl ! i) s))"
    by (intro ext) (simp add: fetch_one_split)

lemma all_eq: "(\<forall>i<length cl. \<exists>a. task_out env limit offset_id (cl ! i) = Inr a) \<longleftrightarrow>
        (\<forall>ch\<in>set cl. \<exists>out. task_out env limit offset_id ch = Inr out)"
    by (metis in_set_conv_nth)

lemma items_eq:
  assumes "\<forall>ch\<in>set cl. \<exists>out. task_out env limit offset_id ch = Inr out"
  shows "map (\<lambda>i. projr (task_out env limit offset_id (cl ! i))) [0..<length cl] =
        map (channel_items env limit offset_id) cl"
proof -
  have "map (\<lambda>i. projr (task_out env limit offset_id (cl ! i))) [0..<length cl] =
        map (\<lambda>ch. projr (task_out env limit offset_id ch)) cl"
    by (rule map_index)
  also have "\<dots> = map (channel_items env limit offset_id) cl"
  proof (rule map_cong [OF refl])
    fix ch assume "ch \<in> set cl"
    with assms obtain out where "task_out env limit offset_id ch = Inr out" by blast
    then show "projr (task_out env limit offset_id ch) = channel_items env limit offset_id ch"
      by (simp add: channel_items_def)
  qed
  finally show ?thesis .
qed

lemma empty_case: "chan_list_of env channels = [] \<Longrightarrow>
   get_news env sched channels limit offset_id sort' =
     Inr \<lparr> body = \<lparr> total = 0, items = [], next_offset = None \<rparr>, X_TG_Errors = None \<rparr>"
  by (simp add: get_news_def)

lemma errors_after_Nil: "errors_after env [] (finish_order 0 sched) = []"
  by (simp add: errors_after_def finish_order_def)


lemma gather_fetch_ok:
  assumes "\<forall>ch\<in>set cl. \<exists>out. task_out env limit offset_id ch = Inr out"
  shows "gather sched (length cl) (\<lambda>i. fetch_one env limit offset_id (cl ! i)) [] =
     Inr (map (channel_items env limit offset_id) cl,
          errors_after env cl (finish_order (length cl) sched))"
proof -
  have "\<forall>i<length cl. \<exists>a. task_out env limit offset_id (cl ! i) = Inr a"
    using assms by (simp only: all_eq)
  then have "gather sched (length cl)
       (\<lambda>i s. case task_out env limit offset_id (cl ! i) of Inl e \<Rightarrow> Inl e
              | Inr a \<Rightarrow> Inr (a, record_error env (cl ! i) s)) [] =
     Inr (map (\<lambda>i. projr (task_out env limit offset_id (cl ! i))) [0..<length cl],
          fold (\<lambda>i. record_error env (cl ! i)) (finish_order (length cl) sched) [])"
    by (simp only: gather_Inr simp_thms)
  then show ?thesis
    by (simp only: task_eq items_eq [OF assms] errors_after_def)
qed

lemma gather_fetch_fail:
  assumes "\<not> (\<forall>ch\<in>set cl. \<exists>out. task_out env limit offset_id ch = Inr out)"
  shows "\<exists>ex. gather sched (length cl) (\<lambda>i. fetch_one env limit offset_id (cl ! i)) [] = Inl ex"
proof -
  let ?g = "gather sched (length cl)
       (\<lambda>i s. case task_out env limit offset_id (cl ! i) of Inl e \<Rightarrow> Inl e
              | Inr a \<Rightarrow> Inr (a, record_error env (cl ! i) s)) []"
  have n: "\<not> (\<forall>i<length cl. \<exists>a. task_out env limit offset_id (cl ! i) = Inr a)"
    using assms by (simp only: all_eq simp_thms)
  have "\<exists>ex. ?g = Inl ex"
  proof (cases ?g)
    case (Inl ex)
    then show ?thesis by (rule exI)
  next
    case (Inr p)
    obtain fetched errs where "p = (fetched, errs)" by (cases p)
    with Inr have "?g = Inr (fetched, errs)" by (simp only:)
    then have "\<forall>i<length cl. \<exists>a. task_out env limit offset_id (cl ! i) = Inr a"
      unfolding gather_Inr by (rule conjunct1)
    with n show ?thesis by (rule notE)
  qed
  then show ?thesis by (simp only: task_eq)
qed

lemma get_news_ok:
  assumes "\<forall>ch\<in>set (chan_list_of env channels). \<exists>out. task_out env limit offset_id ch = Inr out"
  shows "get_news env sched channels limit offset_id sort' =
     Inr (let cl = chan_list_of env channels;
              results = slice_to limit
                (sort_results sort' (concat (map (channel_items env limit offset_id) cl)));
              errors = errors_after env cl (finish_order (length cl) sched)
          in \<lparr> body = \<lparr> total = int (length results), items = results,
                         next_offset = next_offset_of results \<rparr>,
               X_TG_Errors = (if errors = [] then None else Some (errors_header errors)) \<rparr>)"
proof (cases "chan_list_of env channels = []")
  case True
  have "next_offset_of [] = None" by (simp add: next_offset_of_def)
  with True show ?thesis
    by (simp add: empty_case Let_def sort_results_Nil slice_to_Nil errors_after_Nil)
next
  case False
  then show ?thesis
    unfolding get_news_def Let_def by (simp add: gather_fetch_ok [OF assms])
qed

lemma get_news_fail:
  assumes "\<not> (\<forall>ch\<in>set (chan_list_of env channels).
                \<exists>out. task_out env limit offset_id ch = Inr out)"
  shows "\<exists>ex. get_news env sched channels limit offset_id sort' = Inl ex"
proof -
  from assms have ne: "chan_list_of env channels \<noteq> []" by auto
  from gather_fetch_fail [OF assms, of sched] obtain ex where
    "gather sched (length (chan_list_of env channels))
       (\<lambda>i. fetch_one env limit offset_id (chan_list_of env channels ! i)) [] = Inl ex" ..
  with ne have "get_news env sched channels limit offset_id sort' = Inl ex"
    unfolding get_news_def Let_def by simp
  then show ?thesis ..
qed


lemma get_news_returns:
  assumes "get_news env sched channels limit offset_id sort' = Inr r"
  shows "\<forall>ch\<in>set (chan_list_of env channels). \<exists>out. task_out env limit offset_id ch = Inr out"
    and "items (body r) = slice_to limit (sort_results sort'
           (concat (map (channel_items env limit offset_id) (chan_list_of env channels))))"
    and "total (body r) = int (length (items (body r)))"
    and "next_offset (body r) = next_offset_of (items (body r))"
    and "X_TG_Errors r =
           (let errors = errors_after env (chan_list_of env channels)
                           (finish_order (length (chan_list_of env channels)) sched)
            in if errors = [] then None else Some (errors_header errors))"
proof -
  show ok: "\<forall>ch\<in>set (chan_list_of env channels). \<exists>out. task_out env limit offset_id ch = Inr out"
  proof (rule ccontr)
    assume "\<not> ?thesis"
    from get_news_fail [OF this, of sched sort'] assms show False by auto
  qed
  from get_news_ok [OF ok, of sched sort'] assms
  have r: "r = (let cl = chan_list_of env channels;
              results = slice_to limit
                (sort_results sort' (concat (map (channel_items env limit offset_id) cl)));
              errors = errors_after env cl (finish_order (length cl) sched)
          in \<lparr> body = \<lparr> total = int (length results), items = results,
                         next_offset = next_offset_of results \<rparr>,
               X_TG_Errors = (if errors = [] then None else Some (errors_header errors)) \<rparr>)"
    by simp
  show "items (body r) = slice_to limit (sort_results sort'
           (concat (map (channel_items env limit offset_id) (chan_list_of env channels))))"
    by (subst r) (simp add: Let_def)
  show "total (body r) = int (length (items (body r)))"
    by (subst (1 2) r) (simp add: Let_def)
  show "next_offset (body r) = next_offset_of (items (body r))"
    by (subst (1 2) r) (simp add: Let_def)
  show "X_TG_Errors r =
           (let errors = errors_after env (chan_list_of env channels)
                           (finish_order (length (chan_list_of env channels)) sched)
            in if errors = [] then None else Some (errors_header errors))"
    by (subst r) (simp add: Let_def)
qed



lemma set_sort_list: "set (sort_list key r xs) = set xs"
  by (simp add: sort_list_def)

lemma set_sort_results: "set (sort_results sort' xs) = set xs"
  by (simp add: sort_results_def set_sort_list)


lemma set_slice_to: "set (slice_to n xs) \<subseteq> set xs"
  by (auto simp: slice_to_def dest: in_set_takeD)

lemma slice_to_take: "0 \<le> n \<Longrightarrow> slice_to n xs = take (nat n) xs"
  by (simp add: slice_to_def)



lemma pick_title_and_url_parts:
  "pick_title_and_url m = (ttl, txt, link) \<Longrightarrow>
     txt = stripped_body m \<and>
     ttl = (let line = take 120 (takeWhile (\<lambda>c. c \<noteq> CHR 0x0A) (stripped_body m))
            in if line = [] then ''Post'' else line)"
  by (auto simp: pick_title_and_url_def stripped_body_def first_line_def Let_def)

lemma new_NewsItem_fields:
  "new_NewsItem env i cid uname chan_title ttl txt src_url link published = Inr item \<Longrightarrow>
     item_id item = i \<and> item_text item = txt \<and> title item = ttl \<and> publishedAt item = published"
  by (auto simp: new_NewsItem_def Let_def split: if_splits)

lemma news_items_map:
  "news_items env ent msgs = Inr out \<Longrightarrow>
     map (\<lambda>x. (item_id x, item_text x, title x)) out =
     map (\<lambda>m. (str_int (msg_id m), stripped_body m, fst (pick_title_and_url m)))
       (filter (\<lambda>m. stripped_body m \<noteq> []) (messages_of msgs))"
proof (induction msgs arbitrary: out)
  case Nil
  then show ?case by simp
next
  case (Cons f msgs)
  show ?case
  proof (cases f)
    case NotMessage
    with Cons show ?thesis by simp
  next
    case (Message m)
    obtain ttl tx link where p: "pick_title_and_url m = (ttl, tx, link)"
      by (cases "pick_title_and_url m") auto
    from pick_title_and_url_parts [OF p] have tx: "tx = stripped_body m" by simp
    show ?thesis
    proof (cases "tx = []")
      case True
      with Cons Message p tx show ?thesis by simp
    next
      case False
      let ?new = "new_NewsItem env (str_int (msg_id m)) (ent_id ent) (getattr (username ent) None)
          (getattr (ent_title ent) (getattr (first_name ent) (Some ''Channel''))) ttl tx
          (case getattr (username ent) None of None \<Rightarrow> None
           | Some u \<Rightarrow> if u = [] then None else Some (''https://t.me/'' @ u)) link (date m)"
      from Cons.prems Message p False
      have eq: "(case ?new of Inl ex \<Rightarrow> Inl ex
               | Inr item \<Rightarrow> (case news_items env ent msgs of Inl ex \<Rightarrow> Inl ex
                   | Inr out \<Rightarrow> Inr (item # out))) = Inr out"
        by (simp add: Let_def)
      then obtain item rest where new: "?new = Inr item" and
        rest: "news_items env ent msgs = Inr rest" and out: "out = item # rest"
        by (auto split: sum.splits)
      from new_NewsItem_fields [OF new]
      have "item_id item = str_int (msg_id m)" "item_text item = tx" "title item = ttl"
        by simp_all
      with Cons.IH [OF rest] Message p tx False out show ?thesis by simp
    qed
  qed
qed

lemma dict_set_keys:
  "map fst (dict_set d k v) = (if k \<in> set (map fst d) then map fst d else map fst d @ [k])"
  by (induction d) (auto simp: rev_image_eqI split: if_splits)

lemma dict_set_entries: "set (dict_set d k v) \<subseteq> insert (k, v) (set d)"
  by (induction d) (auto split: if_splits)

lemma dict_set_nonempty: "dict_set d k v \<noteq> []"
  by (cases d) (auto split: if_splits)

lemma contains_iff: "contains old s \<longleftrightarrow> (\<exists>a b. s = a @ old @ b)"
proof (induction s)
  case Nil
  show ?case by (auto simp: contains.simps)
next
  case (Cons c s)
  have "take (length old) (c # s) = old \<longleftrightarrow> (\<exists>b. c # s = old @ b)"
    by (metis append_eq_conv_conj append_take_drop_id)
  moreover have "(\<exists>a b. c # s = a @ old @ b) \<longleftrightarrow> (\<exists>b. c # s = old @ b) \<or> (\<exists>a b. s = a @ old @ b)"
  proof
    assume "\<exists>a b. c # s = a @ old @ b"
    then obtain a b where ab: "c # s = a @ old @ b" by blast
    show "(\<exists>b. c # s = old @ b) \<or> (\<exists>a b. s = a @ old @ b)"
    proof (cases a)
      case Nil
      with ab show ?thesis by auto
    next
      case (Cons a0 as)
      with ab have "s = as @ old @ b" by simp
      then show ?thesis by blast
    qed
  next
    assume "(\<exists>b. c # s = old @ b) \<or> (\<exists>a b. s = a @ old @ b)"
    then show "\<exists>a b. c # s = a @ old @ b"
    proof
      assume "\<exists>b. c # s = old @ b"
      then show ?thesis by (metis append_Nil)
    next
      assume "\<exists>a b. s = a @ old @ b"
      then obtain a b where "s = a @ old @ b" by blast
      then have "c # s = (c # a) @ old @ b" by simp
      then show ?thesis by blast
    qed
  qed
  ultimately show ?case using Cons by (simp add: contains.simps)
qed

lemma join_holds: "x \<in> set xs \<Longrightarrow> \<exists>a b. join sep xs = a @ x @ b"
proof (induction sep xs rule: join.induct)
  case (1 sep)
  then show ?case by simp
next
  case (2 sep p)
  then have "join sep [p] = [] @ x @ []" by simp
  then show ?case by blast
next
  case (3 sep p q ps)
  show ?case
  proof (cases "x = p")
    case True
    then have "join sep (p # q # ps) = [] @ x @ (sep @ join sep (q # ps))" by simp
    then show ?thesis by blast
  next
    case False
    with 3 obtain a b where "join sep (q # ps) = a @ x @ b" by auto
    then have "join sep (p # q # ps) = (p @ sep @ a) @ x @ b" by simp
    then show ?thesis by blast
  qed
qed


lemma task_out_cases:
  assumes "task_out env limit offset_id ch = Inr out"
  shows "(\<exists>ex. resolve_channel env ch = Inl ex \<and> out = []) \<or>
     (\<exists>ent msgs. resolve_channel env ch = Inr ent \<and>
        get_messages env ent limit offset_id = Inr msgs \<and> news_items env ent msgs = Inr out)"
proof (cases "resolve_channel env ch")
  case (Inl ex)
  with resolve_channel_error obtain d where d: "resolve_channel env ch = Inl (HTTPException 400 d)"
    by blast
  then have "fetch_one env limit offset_id ch [] = Inr ([], dict_set [] ch d)"
    by (simp add: fetch_one_def)
  with assms have "out = []" by (simp add: task_out_def)
  with Inl show ?thesis by blast
next
  case (Inr ent)
  show ?thesis
  proof (cases "get_messages env ent limit offset_id")
    case (Inl err)
    with Inr have "fetch_one env limit offset_id ch [] = Inl (Telethon err)"
      by (simp add: fetch_one_def)
    with assms show ?thesis by (simp add: task_out_def)
  next
    case msgs: (Inr msgs)
    show ?thesis
    proof (cases "news_items env ent msgs")
      case (Inl ex)
      with Inr msgs have "fetch_one env limit offset_id ch [] = Inl ex"
        by (simp add: fetch_one_def)
      with assms show ?thesis by (simp add: task_out_def)
    next
      case items: (Inr out')
      with Inr msgs have "fetch_one env limit offset_id ch [] = Inr (out', [])"
        by (simp add: fetch_one_def)
      with assms have "out = out'" by (simp add: task_out_def)
      with Inr msgs items show ?thesis by blast
    qed
  qed
qed

lemma news_items_ids:
  assumes "news_items env ent msgs = Inr out" "x \<in> set out"
  shows "\<exists>i. item_id x = str_int i"
proof -
  let ?kept = "filter (\<lambda>m. stripped_body m \<noteq> []) (messages_of msgs)"
  have "map fst (map (\<lambda>x. (item_id x, item_text x, title x)) out) =
        map fst (map (\<lambda>m. (str_int (msg_id m), stripped_body m, fst (pick_title_and_url m))) ?kept)"
    by (simp only: news_items_map [OF assms(1)])
  then have "map item_id out = map (\<lambda>m. str_int (msg_id m)) ?kept" by (simp add: o_def)
  moreover from assms(2) have "item_id x \<in> set (map item_id out)" by simp
  ultimately have "item_id x \<in> set (map (\<lambda>m. str_int (msg_id m)) ?kept)" by simp
  then show ?thesis by auto
qed

lemma news_items_text:
  assumes "news_items env ent msgs = Inr out" "x \<in> set out"
  shows "item_text x \<noteq> []"
proof -
  let ?kept = "filter (\<lambda>m. stripped_body m \<noteq> []) (messages_of msgs)"
  have "map (\<lambda>p. fst (snd p)) (map (\<lambda>x. (item_id x, item_text x, title x)) out) =
        map (\<lambda>p. fst (snd p)) (map (\<lambda>m. (str_int (msg_id m), stripped_body m, fst (pick_title_and_url m))) ?kept)"
    by (simp only: news_items_map [OF assms(1)])
  then have "map item_text out = map stripped_body ?kept" by (simp add: o_def)
  moreover from assms(2) have "item_text x \<in> set (map item_text out)" by simp
  ultimately have "item_text x \<in> set (map stripped_body ?kept)" by simp
  then show ?thesis by auto
qed

lemma channel_items_ids:
  assumes "x \<in> set (channel_items env limit offset_id ch)"
  shows "\<exists>i. item_id x = str_int i"
proof (cases "task_out env limit offset_id ch")
  case (Inl ex)
  with assms show ?thesis by (simp add: channel_items_def)
next
  case (Inr out)
  with assms have x: "x \<in> set out" by (simp add: channel_items_def)
  from task_out_cases [OF Inr] x show ?thesis by (auto dest: news_items_ids)
qed

lemma channel_items_text:
  assumes "x \<in> set (channel_items env limit offset_id ch)"
  shows "item_text x \<noteq> []"
proof (cases "task_out env limit offset_id ch")
  case (Inl ex)
  with assms show ?thesis by (simp add: channel_items_def)
next
  case (Inr out)
  with assms have x: "x \<in> set out" by (simp add: channel_items_def)
  from task_out_cases [OF Inr] x show ?thesis by (auto dest: news_items_text)
qed

lemma items_of_page:
  assumes "get_news env sched channels limit offset_id sort' = Inr r" "x \<in> set (items (body r))"
  shows "\<exists>ch\<in>set (chan_list_of env channels). x \<in> set (channel_items env limit offset_id ch)"
proof -
  let ?merged = "concat (map (channel_items env limit offset_id) (chan_list_of env channels))"
  have "x \<in> set (slice_to limit (sort_results sort' ?merged))"
    using assms(2) unfolding get_news_returns(2) [OF assms(1)] .
  then have "x \<in> set (sort_results sort' ?merged)"
    using set_slice_to [of limit "sort_results sort' ?merged"] by (rule_tac subsetD)
  then have "x \<in> set ?merged" by (simp only: set_sort_results)
  then show ?thesis by (simp only: set_concat set_map) blast
qed

lemma those_map_Some:
  "\<forall>x\<in>set xs. f x \<noteq> None \<Longrightarrow> those (map f xs) = Some (map (\<lambda>x. the (f x)) xs)"
  by (induction xs) auto

lemma those_map_None: "\<exists>x\<in>set xs. f x = None \<Longrightarrow> those (map f xs) = None"
  by (induction xs) (auto split: option.splits)

lemma next_offset_of_None:
  "next_offset_of page = None \<longleftrightarrow> page = [] \<or> (\<exists>x\<in>set page. int_of_str (item_id x) = None)"
proof (cases "\<exists>x\<in>set page. int_of_str (item_id x) = None")
  case True
  then show ?thesis by (simp add: next_offset_of_def those_map_None)
next
  case False
  then have "\<forall>x\<in>set page. int_of_str (item_id x) \<noteq> None" by simp
  from those_map_Some [of page "\<lambda>n. int_of_str (item_id n)", OF this] False
  show ?thesis by (simp add: next_offset_of_def)
qed

lemma next_offset_of_Some:
  "next_offset_of page = Some k \<longleftrightarrow>
     page \<noteq> [] \<and> (\<forall>x\<in>set page. \<exists>i. int_of_str (item_id x) = Some i \<and> k \<le> i) \<and>
     (\<exists>x\<in>set page. int_of_str (item_id x) = Some k)"
proof (cases "page = [] \<or> (\<exists>x\<in>set page. int_of_str (item_id x) = None)")
  case True
  with next_offset_of_None [of page] have "next_offset_of page = None" by simp
  with True show ?thesis by force
next
  case False
  then have ne: "page \<noteq> []" and all: "\<forall>x\<in>set page. int_of_str (item_id x) \<noteq> None" by auto
  let ?f = "\<lambda>x. the (int_of_str (item_id x))"
  let ?S = "?f ` set page"
  have fin: "finite ?S" "?S \<noteq> {}" using ne by auto
  have val: "next_offset_of page = Some (Min ?S)"
    using ne those_map_Some [of page "\<lambda>n. int_of_str (item_id n)", OF all]
    by (simp add: next_offset_of_def)
  have eq: "int_of_str (item_id x) = Some (?f x)" if "x \<in> set page" for x
    using all that by auto
  show ?thesis
  proof
    assume "next_offset_of page = Some k"
    with val have k: "k = Min ?S" by simp
    from Min_in [OF fin] k obtain x where x: "x \<in> set page" "k = ?f x" by auto
    have "\<exists>i. int_of_str (item_id y) = Some i \<and> k \<le> i" if "y \<in> set page" for y
    proof -
      from that have "?f y \<in> ?S" by blast
      with fin k have "k \<le> ?f y" by simp
      with eq [OF that] show ?thesis by blast
    qed
    moreover from x eq [OF x(1)] have "\<exists>x\<in>set page. int_of_str (item_id x) = Some k" by auto
    ultimately show "page \<noteq> [] \<and> (\<forall>x\<in>set page. \<exists>i. int_of_str (item_id x) = Some i \<and> k \<le> i) \<and>
        (\<exists>x\<in>set page. int_of_str (item_id x) = Some k)"
      using ne by blast
  next
    assume a: "page \<noteq> [] \<and> (\<forall>x\<in>set page. \<exists>i. int_of_str (item_id x) = Some i \<and> k \<le> i) \<and>
        (\<exists>x\<in>set page. int_of_str (item_id x) = Some k)"
    then obtain x where x: "x \<in> set page" "int_of_str (item_id x) = Some k" by blast
    then have "k \<in> ?S" by force
    moreover have "k \<le> j" if "j \<in> ?S" for j
    proof -
      from that obtain y where y: "y \<in> set page" "j = ?f y" by blast
      with a obtain i where "int_of_str (item_id y) = Some i" "k \<le> i" by blast
      with y show ?thesis by simp
    qed
    ultimately have "Min ?S = k" using fin by (intro Min_eqI) auto
    with val show "next_offset_of page = Some k" by simp
  qed
qed

lemma record_error_keeps:
  assumes "distinct (map fst errs)"
    "\<forall>(k, v)\<in>set errs. resolve_channel env k = Inl (HTTPException 400 v)"
  shows "distinct (map fst (record_error env ch errs)) \<and>
     (\<forall>(k, v)\<in>set (record_error env ch errs). resolve_channel env k = Inl (HTTPException 400 v)) \<and>
     set (map fst (record_error env ch errs)) =
       set (map fst errs) \<union> {c. c = ch \<and> (\<exists>ex. resolve_channel env ch = Inl ex)}"
proof (cases "resolve_channel env ch")
  case (Inr ent)
  then have "record_error env ch errs = errs" by (simp add: record_error_def)
  with assms Inr show ?thesis by simp
next
  case (Inl ex)
  with resolve_channel_error obtain d where d: "resolve_channel env ch = Inl (HTTPException 400 d)"
    by blast
  then have r: "record_error env ch errs = dict_set errs ch d" by (simp add: record_error_def)
  have "distinct (map fst (dict_set errs ch d))"
    using assms(1) by (simp add: dict_set_keys)
  moreover have "\<forall>(k, v)\<in>set (dict_set errs ch d). resolve_channel env k = Inl (HTTPException 400 v)"
    using assms(2) d dict_set_entries [of errs ch d] by blast
  moreover have "set (map fst (dict_set errs ch d)) =
       set (map fst errs) \<union> {c. c = ch \<and> (\<exists>ex. resolve_channel env ch = Inl ex)}"
    using d by (auto simp: dict_set_keys)
  ultimately show ?thesis unfolding r by blast
qed

lemma fold_record_error:
  assumes "distinct (map fst errs)"
    "\<forall>(k, v)\<in>set errs. resolve_channel env k = Inl (HTTPException 400 v)"
  shows "distinct (map fst (fold (\<lambda>i. record_error env (cl ! i)) order errs)) \<and>
     (\<forall>(k, v)\<in>set (fold (\<lambda>i. record_error env (cl ! i)) order errs).
         resolve_channel env k = Inl (HTTPException 400 v)) \<and>
     set (map fst (fold (\<lambda>i. record_error env (cl ! i)) order errs)) =
       set (map fst errs) \<union>
       {c. \<exists>i\<in>set order. c = cl ! i \<and> (\<exists>ex. resolve_channel env (cl ! i) = Inl ex)}"
  using assms
proof (induction order arbitrary: errs)
  case Nil
  then show ?case by simp
next
  case (Cons i order)
  from record_error_keeps [OF Cons.prems, of "cl ! i"]
  have step: "distinct (map fst (record_error env (cl ! i) errs))"
    "\<forall>(k, v)\<in>set (record_error env (cl ! i) errs). resolve_channel env k = Inl (HTTPException 400 v)"
    "set (map fst (record_error env (cl ! i) errs)) =
       set (map fst errs) \<union> {c. c = cl ! i \<and> (\<exists>ex. resolve_channel env (cl ! i) = Inl ex)}"
    by blast+
  from Cons.IH [OF step(1) step(2)] step(3) show ?case by auto
qed




text \<open>
  C7. With a limit from 1 to 200, the response has \<^verbatim>\<open>total\<close> equal to the number of its
  items and at most \<^verbatim>\<open>limit\<close> items: they are the first \<^verbatim>\<open>limit\<close> of the merged and sorted
  items of all the channels, so the limit caps the whole page, not each channel.
\<close>

theorem page_within_limit:
  assumes "1 \<le> limit" "limit \<le> 200"
    and "get_news env sched channels limit offset_id sort' = Inr r"
  shows "total (body r) = int (length (items (body r))) \<and>
         int (length (items (body r))) \<le> limit \<and>
         items (body r) =
           take (nat limit)
             (sort_results sort'
                (concat (map (channel_items env limit offset_id) (chan_list_of env channels))))"
proof -
  let ?sorted = "sort_results sort'
      (concat (map (channel_items env limit offset_id) (chan_list_of env channels)))"
  from assms(1) have "slice_to limit ?sorted = take (nat limit) ?sorted"
    by (simp add: slice_to_take)
  with get_news_returns(2) [OF assms(3)]
  have page: "items (body r) = take (nat limit) ?sorted" by (rule trans)
  then have "length (items (body r)) \<le> nat limit" by (simp only: length_take min.cobounded2)
  with assms(1) have "int (length (items (body r))) \<le> limit" by linarith
  with page get_news_returns(3) [OF assms(3)] show ?thesis by blast
qed

theorem page_within_limit_witness:
  "(1::int) \<le> 2 \<and> (2::int) \<le> 200 \<and>
   get_news demo_env [] (Some ''news, @blog'') 2 0 ''oldest'' =
     Inr (projr (get_news demo_env [] (Some ''news, @blog'') 2 0 ''oldest'')) \<and>
   map item_id (items (body (projr (get_news demo_env [] (Some ''news, @blog'') 2 0 ''oldest'')))) =
     [''8'', ''7''] \<and>
   total (body (projr (get_news demo_env [] (Some ''news, @blog'') 2 0 ''oldest''))) =
     int (length (items (body (projr (get_news demo_env [] (Some ''news, @blog'') 2 0 ''oldest''))))) \<and>
   int (length (items (body (projr (get_news demo_env [] (Some ''news, @blog'') 2 0 ''oldest''))))) \<le> 2"
proof -
  let ?g = "get_news demo_env [] (Some ''news, @blog'') 2 0 ''oldest''"
  have "\<not> isl ?g" by code_simp
  then have g: "?g = Inr (projr ?g)" by (rule returned)
  have l: "(1::int) \<le> 2" "(2::int) \<le> 200" by simp_all
  have m: "map item_id (items (body (projr ?g))) = [''8'', ''7'']" by code_simp
  from page_within_limit [OF l g] g m l show ?thesis by blast
qed

text \<open>
  C6. The \<^verbatim>\<open>next_offset\<close> of a response is computed from its items: when present it is
  the least of their ids read as integers (it is the id of one item and no id is below
  it), and it is absent exactly when the page is empty or some id is no integer.
\<close>

theorem next_offset_is_minimum:
  "(get_news env sched channels limit offset_id sort' = Inr r \<longrightarrow>
      next_offset (body r) = next_offset_of (items (body r))) \<and>
   (next_offset_of page = Some k \<longleftrightarrow>
      page \<noteq> [] \<and> (\<forall>x\<in>set page. \<exists>i. int_of_str (item_id x) = Some i \<and> k \<le> i) \<and>
      (\<exists>x\<in>set page. int_of_str (item_id x) = Some k)) \<and>
   (next_offset_of page = None \<longleftrightarrow>
      page = [] \<or> (\<exists>x\<in>set page. int_of_str (item_id x) = None))"
  using get_news_returns(4) [of env sched channels limit offset_id sort' r]
    next_offset_of_Some [of page k] next_offset_of_None [of page]
  by blast

theorem next_offset_is_minimum_witness:
  "get_news demo_env [] (Some ''news, @blog'') 30 0 ''newest'' =
     Inr (projr (get_news demo_env [] (Some ''news, @blog'') 30 0 ''newest'')) \<and>
   map item_id (items (body (projr (get_news demo_env [] (Some ''news, @blog'') 30 0 ''newest'')))) =
     [''10'', ''7'', ''8''] \<and>
   next_offset (body (projr (get_news demo_env [] (Some ''news, @blog'') 30 0 ''newest''))) = Some 7 \<and>
   next_offset_of
     (map (\<lambda>x. x \<lparr> item_id := ''n/a'' \<rparr>)
        (items (body (projr (get_news demo_env [] (Some ''news, @blog'') 30 0 ''newest''))))) = None"
proof -
  let ?g = "get_news demo_env [] (Some ''news, @blog'') 30 0 ''newest''"
  let ?bad = "map (\<lambda>x. x \<lparr> item_id := ''n/a'' \<rparr>) (items (body (projr ?g)))"
  have "\<not> isl ?g" by code_simp
  then have g: "?g = Inr (projr ?g)" by (rule returned)
  have m: "map item_id (items (body (projr ?g))) = [''10'', ''7'', ''8'']" by code_simp
  have v: "next_offset_of (items (body (projr ?g))) = Some 7" by code_simp
  have b: "\<exists>x\<in>set ?bad. int_of_str (item_id x) = None" by code_simp
  note min = next_offset_is_minimum [of demo_env "[]" "Some ''news, @blog''" 30 0 "''newest''"
      "projr ?g" ?bad 7]
  from min [THEN conjunct1] g
  have "next_offset (body (projr ?g)) = next_offset_of (items (body (projr ?g)))" by (rule mp)
  then have p: "next_offset (body (projr ?g)) = Some 7" using v by (rule trans)
  from min [THEN conjunct2, THEN conjunct2] b have "next_offset_of ?bad = None" by blast
  with g m p show ?thesis by blast
qed

text \<open>
  C10. Every id on a page is the decimal string of an integer, which \<^verbatim>\<open>int\<close> reads back;
  so a page that is not empty always has its \<^verbatim>\<open>next_offset\<close>.
\<close>

theorem next_offset_present:
  assumes "get_news env sched channels limit offset_id sort' = Inr r" "items (body r) \<noteq> []"
  shows "(\<forall>x\<in>set (items (body r)). \<exists>i. item_id x = str_int i \<and> int_of_str (item_id x) = Some i) \<and>
         (\<exists>k. next_offset (body r) = Some k)"
proof -
  have ids: "\<exists>i. item_id x = str_int i \<and> int_of_str (item_id x) = Some i"
    if "x \<in> set (items (body r))" for x
  proof -
    from items_of_page [OF assms(1) that] obtain ch where
      "x \<in> set (channel_items env limit offset_id ch)" by blast
    from channel_items_ids [OF this] obtain i where "item_id x = str_int i" by blast
    then show ?thesis by (simp add: int_of_str_str_int)
  qed
  then have "\<not> (\<exists>x\<in>set (items (body r)). int_of_str (item_id x) = None)" by fastforce
  with assms(2) have "next_offset_of (items (body r)) \<noteq> None"
    by (simp only: next_offset_of_None simp_thms)
  then have "next_offset (body r) \<noteq> None"
    by (simp only: get_news_returns(4) [OF assms(1)] simp_thms)
  with ids show ?thesis by blast
qed

theorem next_offset_present_witness:
  "get_news demo_env [] (Some ''news, @blog'') 2 0 ''newest'' =
     Inr (projr (get_news demo_env [] (Some ''news, @blog'') 2 0 ''newest'')) \<and>
   items (body (projr (get_news demo_env [] (Some ''news, @blog'') 2 0 ''newest''))) \<noteq> [] \<and>
   (\<exists>k. next_offset (body (projr (get_news demo_env [] (Some ''news, @blog'') 2 0 ''newest''))) =
      Some k)"
proof -
  let ?g = "get_news demo_env [] (Some ''news, @blog'') 2 0 ''newest''"
  have "\<not> isl ?g" by code_simp
  then have g: "?g = Inr (projr ?g)" by (rule returned)
  have ne: "items (body (projr ?g)) \<noteq> []" by code_simp
  from next_offset_present [OF g ne] g ne show ?thesis by blast
qed

lemma fetch_one_items:
  assumes "resolve_channel env ch = Inr ent"
    and "get_messages env ent limit offset_id = Inr msgs"
    and "fetch_one env limit offset_id ch errs = Inr (out, errs')"
  shows "map (\<lambda>x. (item_text x, title x)) out =
         map (\<lambda>m. (stripped_body m,
                    (let line = take 120 (takeWhile (\<lambda>c. c \<noteq> CHR 0x0A) (stripped_body m))
                     in if line = [] then ''Post'' else line)))
           (filter (\<lambda>m. stripped_body m \<noteq> []) (messages_of msgs))"
proof -
  let ?kept = "filter (\<lambda>m. stripped_body m \<noteq> []) (messages_of msgs)"
  from assms have "news_items env ent msgs = Inr out"
    by (simp add: fetch_one_def split: sum.splits)
  from news_items_map [OF this]
  have "map (\<lambda>p. (fst (snd p), snd (snd p))) (map (\<lambda>x. (item_id x, item_text x, title x)) out) =
        map (\<lambda>p. (fst (snd p), snd (snd p)))
          (map (\<lambda>m. (str_int (msg_id m), stripped_body m, fst (pick_title_and_url m))) ?kept)"
    by (rule arg_cong)
  then have "map (\<lambda>x. (item_text x, title x)) out =
        map (\<lambda>m. (stripped_body m, fst (pick_title_and_url m))) ?kept"
    by (simp add: o_def)
  also have "\<dots> = map (\<lambda>m. (stripped_body m,
                    (let line = take 120 (takeWhile (\<lambda>c. c \<noteq> CHR 0x0A) (stripped_body m))
                     in if line = [] then ''Post'' else line))) ?kept"
  proof (rule map_cong [OF refl])
    fix m
    obtain ttl tx link where p: "pick_title_and_url m = (ttl, tx, link)"
      by (cases "pick_title_and_url m") auto
    from pick_title_and_url_parts [OF p] p
    show "(stripped_body m, fst (pick_title_and_url m)) =
        (stripped_body m,
         (let line = take 120 (takeWhile (\<lambda>c. c \<noteq> CHR 0x0A) (stripped_body m))
          in if line = [] then ''Post'' else line))"
      by simp
  qed
  finally show ?thesis .
qed

text \<open>
  C5. The items that a task returns for a channel are, in order, those of the messages
  fetched whose stripped body is not empty; messages with an empty stripped body (and
  service events) give no item. The text of an item is the stripped body, its title the
  first line of it cut to 120 characters, or \<^verbatim>\<open>Post\<close> should that be empty. No item
  of a page returned has an empty text.
\<close>

theorem normalizer_drops_empty:
  "(resolve_channel env ch = Inr ent \<and> get_messages env ent limit offset_id = Inr msgs \<and>
    fetch_one env limit offset_id ch errs = Inr (out, errs') \<longrightarrow>
      map (\<lambda>x. (item_text x, title x)) out =
      map (\<lambda>m. (stripped_body m,
                 (let line = take 120 (takeWhile (\<lambda>c. c \<noteq> CHR 0x0A) (stripped_body m))
                  in if line = [] then ''Post'' else line)))
        (filter (\<lambda>m. stripped_body m \<noteq> []) (messages_of msgs))) \<and>
   (get_news env sched channels limit offset_id sort' = Inr r \<longrightarrow>
      (\<forall>x\<in>set (items (body r)). item_text x \<noteq> []))"
proof (intro conjI impI ballI)
  assume "resolve_channel env ch = Inr ent \<and> get_messages env ent limit offset_id = Inr msgs \<and>
    fetch_one env limit offset_id ch errs = Inr (out, errs')"
  then show "map (\<lambda>x. (item_text x, title x)) out =
      map (\<lambda>m. (stripped_body m,
                 (let line = take 120 (takeWhile (\<lambda>c. c \<noteq> CHR 0x0A) (stripped_body m))
                  in if line = [] then ''Post'' else line)))
        (filter (\<lambda>m. stripped_body m \<noteq> []) (messages_of msgs))"
    using fetch_one_items [of env ch ent limit offset_id msgs errs out errs'] by blast
next
  fix x
  assume "get_news env sched channels limit offset_id sort' = Inr r" "x \<in> set (items (body r))"
  from items_of_page [OF this] obtain c where
    "x \<in> set (channel_items env limit offset_id c)" by blast
  then show "item_text x \<noteq> []" by (rule channel_items_text)
qed

theorem normalizer_drops_empty_witness:
  "resolve_channel demo_env ''news'' = Inr (channel 1 ''News'' (Some ''news'')) \<and>
   get_messages demo_env (channel 1 ''News'' (Some ''news'')) 30 0 =
     Inr [Message (post 10 (''Hello'' @ [CHR 0x0A] @ ''world'') 500), NotMessage,
          Message (post 9 ''  '' 400), Message (post 8 ''Second'' 300)] \<and>
   fetch_one demo_env 30 0 ''news'' [] =
     Inr (fst (projr (fetch_one demo_env 30 0 ''news'' [])),
          snd (projr (fetch_one demo_env 30 0 ''news'' []))) \<and>
   map (\<lambda>x. (item_text x, title x)) (fst (projr (fetch_one demo_env 30 0 ''news'' []))) =
     [(''Hello'' @ [CHR 0x0A] @ ''world'', ''Hello''), (''Second'', ''Second'')]"
proof -
  let ?f = "fetch_one demo_env 30 0 ''news'' []"
  let ?msgs = "[Message (post 10 (''Hello'' @ [CHR 0x0A] @ ''world'') 500), NotMessage,
          Message (post 9 ''  '' 400), Message (post 8 ''Second'' 300)]"
  have r: "resolve_channel demo_env ''news'' = Inr (channel 1 ''News'' (Some ''news''))"
    by code_simp
  have g: "get_messages demo_env (channel 1 ''News'' (Some ''news'')) 30 0 = Inr ?msgs"
    by code_simp
  have "\<not> isl ?f" by code_simp
  then have f: "?f = Inr (fst (projr ?f), snd (projr ?f))" by (rule returned_pair)
  have v: "map (\<lambda>m. (stripped_body m,
                    (let line = take 120 (takeWhile (\<lambda>c. c \<noteq> CHR 0x0A) (stripped_body m))
                     in if line = [] then ''Post'' else line)))
           (filter (\<lambda>m. stripped_body m \<noteq> []) (messages_of ?msgs)) =
     [(''Hello'' @ [CHR 0x0A] @ ''world'', ''Hello''), (''Second'', ''Second'')]"
    by code_simp
  from r g f have "resolve_channel demo_env ''news'' = Inr (channel 1 ''News'' (Some ''news'')) \<and>
      get_messages demo_env (channel 1 ''News'' (Some ''news'')) 30 0 = Inr ?msgs \<and>
      ?f = Inr (fst (projr ?f), snd (projr ?f))"
    by (intro conjI)
  from normalizer_drops_empty [THEN conjunct1, THEN mp, OF this] v
  have "map (\<lambda>x. (item_text x, title x)) (fst (projr ?f)) =
     [(''Hello'' @ [CHR 0x0A] @ ''world'', ''Hello''), (''Second'', ''Second'')]"
    by (rule trans)
  with r g f show ?thesis by blast
qed

lemma errors_after_props:
  "distinct (map fst (errors_after env cl (finish_order (length cl) sched))) \<and>
   (\<forall>(k, v)\<in>set (errors_after env cl (finish_order (length cl) sched)).
       resolve_channel env k = Inl (HTTPException 400 v)) \<and>
   set (map fst (errors_after env cl (finish_order (length cl) sched))) =
     {ch \<in> set cl. \<exists>ex. resolve_channel env ch = Inl ex}"
proof -
  let ?order = "finish_order (length cl) sched"
  have "{c. \<exists>i\<in>set ?order. c = cl ! i \<and> (\<exists>ex. resolve_channel env (cl ! i) = Inl ex)} =
        {ch \<in> set cl. \<exists>ex. resolve_channel env ch = Inl ex}"
    unfolding set_finish_order by (auto simp: in_set_conv_nth)
  with fold_record_error [of "[]" env cl ?order] show ?thesis
    unfolding errors_after_def by simp
qed

lemma header_contains:
  assumes "(k, v) \<in> set errs"
  shows "contains (k @ '':'' @ v) (errors_header errs)" "contains k (errors_header errs)"
proof -
  from assms have "k @ '':'' @ v \<in> set (map (\<lambda>(k, v). k @ '':'' @ v) errs)" by force
  from join_holds [OF this, of "''; ''"] obtain a b where
    h: "errors_header errs = a @ (k @ '':'' @ v) @ b"
    unfolding errors_header_def by blast
  then show "contains (k @ '':'' @ v) (errors_header errs)"
    unfolding contains_iff by blast
  from h have "errors_header errs = a @ k @ ('':'' @ v @ b)" by simp
  then show "contains k (errors_header errs)"
    unfolding contains_iff by blast
qed

lemma header_nonempty: "errs \<noteq> [] \<Longrightarrow> errors_header errs \<noteq> []"
proof -
  assume "errs \<noteq> []"
  then obtain k v where "(k, v) \<in> set errs" by (cases errs) auto
  from header_contains(1) [OF this] obtain a b where
    "errors_header errs = a @ (k @ '':'' @ v) @ b"
    unfolding contains_iff by blast
  then show ?thesis by simp
qed

lemma task_out_failed:
  assumes "resolve_channel env ch = Inl ex"
  shows "task_out env limit offset_id ch = Inr []"
proof -
  from assms resolve_channel_error obtain d where
    "resolve_channel env ch = Inl (HTTPException 400 d)" by blast
  then show ?thesis by (simp add: task_out_def fetch_one_def)
qed

text \<open>
  The header of errors, for the strings of this model (code points below 256). In a
  response, \<^verbatim>\<open>X-TG-Errors\<close> is set exactly when some requested channel failed to resolve;
  its value joins with \<^verbatim>\<open>; \<close> one entry \<^verbatim>\<open>name:reason\<close> for each failing channel, the
  reason being the detail of the 400 that the resolver raised. When the list of channels
  is not empty and every channel fails to resolve, the request is answered 200 with no
  items, \<^verbatim>\<open>total\<close> 0 and a header that is not empty and holds every channel name,
  whatever the order in which the tasks finish.

  The value of the header holds every failing name as the request gave it, and the
  assignment \<^verbatim>\<open>response.headers["X-TG-Errors"] = ...\<close> encodes the value in latin-1. A
  failing name with a code point above 255 is no string of this model: there the
  assignment raises \<^verbatim>\<open>UnicodeEncodeError\<close> and the request is answered 500, so the lemma
  says nothing of such a request.
\<close>

lemma errors_header_of_failures:
  "(get_news env sched channels limit offset_id sort' = Inr r \<longrightarrow>
      (X_TG_Errors r \<noteq> None) =
        (\<exists>ch\<in>set (chan_list_of env channels). \<exists>ex. resolve_channel env ch = Inl ex) \<and>
      (\<exists>errs. distinct (map fst errs) \<and>
         set (map fst errs) =
           {ch \<in> set (chan_list_of env channels). \<exists>ex. resolve_channel env ch = Inl ex} \<and>
         (\<forall>(k, v)\<in>set errs. resolve_channel env k = Inl (HTTPException 400 v)) \<and>
         X_TG_Errors r =
           (if errs = [] then None
            else Some (join ''; '' (map (\<lambda>(k, v). k @ '':'' @ v) errs))))) \<and>
   (chan_list_of env channels \<noteq> [] \<and>
    (\<forall>ch\<in>set (chan_list_of env channels). \<exists>ex. resolve_channel env ch = Inl ex) \<longrightarrow>
      (\<exists>r' h. get_news env sched channels limit offset_id sort' = Inr r' \<and>
         status_code (get_news env sched channels limit offset_id sort') = 200 \<and>
         items (body r') = [] \<and> total (body r') = 0 \<and>
         X_TG_Errors r' = Some h \<and> h \<noteq> [] \<and>
         (\<forall>ch\<in>set (chan_list_of env channels). contains ch h)))"
proof (intro conjI impI)
  let ?cl = "chan_list_of env channels"
  let ?E = "errors_after env ?cl (finish_order (length ?cl) sched)"
  note E = errors_after_props [of env ?cl sched]
  note E3 = E [THEN conjunct2, THEN conjunct2]
  {
    assume g: "get_news env sched channels limit offset_id sort' = Inr r"
    from get_news_returns(5) [OF g]
    have h: "X_TG_Errors r = (if ?E = [] then None else Some (errors_header ?E))"
      by (simp only: Let_def)
    have "(?E = []) = (set (map fst ?E) = {})" by simp
    also have "\<dots> = (\<not> (\<exists>ch\<in>set ?cl. \<exists>ex. resolve_channel env ch = Inl ex))"
      unfolding E3 by auto
    finally have "(?E \<noteq> []) = (\<exists>ch\<in>set ?cl. \<exists>ex. resolve_channel env ch = Inl ex)" by blast
    with h show "(X_TG_Errors r \<noteq> None) =
        (\<exists>ch\<in>set ?cl. \<exists>ex. resolve_channel env ch = Inl ex)"
      by (cases "?E = []") simp_all
    from E h show "\<exists>errs. distinct (map fst errs) \<and>
         set (map fst errs) = {ch \<in> set ?cl. \<exists>ex. resolve_channel env ch = Inl ex} \<and>
         (\<forall>(k, v)\<in>set errs. resolve_channel env k = Inl (HTTPException 400 v)) \<and>
         X_TG_Errors r =
           (if errs = [] then None
            else Some (join ''; '' (map (\<lambda>(k, v). k @ '':'' @ v) errs)))"
      unfolding errors_header_def by (intro exI [of _ ?E]) blast
  }
  {
    assume a: "?cl \<noteq> [] \<and> (\<forall>ch\<in>set ?cl. \<exists>ex. resolve_channel env ch = Inl ex)"
    then have failed: "task_out env limit offset_id ch = Inr []" if "ch \<in> set ?cl" for ch
      using that task_out_failed by blast
    then have ok: "\<forall>ch\<in>set ?cl. \<exists>out. task_out env limit offset_id ch = Inr out" by blast
    from get_news_ok [OF ok, of sched sort'] obtain r' where
      g: "get_news env sched channels limit offset_id sort' = Inr r'" by blast
    have "map (channel_items env limit offset_id) ?cl = map (\<lambda>ch. []) ?cl"
      by (rule map_cong [OF refl]) (simp add: channel_items_def failed)
    then have "concat (map (channel_items env limit offset_id) ?cl) = []" by simp
    with get_news_returns(2) [OF g] have items: "items (body r') = []"
      by (simp only: sort_results_Nil slice_to_Nil)
    with get_news_returns(3) [OF g] have total: "total (body r') = 0" by simp
    from a have keys: "set (map fst ?E) = set ?cl" unfolding E3 by auto
    with a have ne: "?E \<noteq> []" by (metis list.map_disc_iff set_empty)
    with get_news_returns(5) [OF g] have h: "X_TG_Errors r' = Some (errors_header ?E)"
      by (simp only: Let_def if_False)
    have listed: "contains ch (errors_header ?E)" if "ch \<in> set ?cl" for ch
    proof -
      from that keys have "ch \<in> fst ` set ?E" by simp
      then obtain v where "(ch, v) \<in> set ?E" by force
      then show ?thesis by (rule header_contains(2))
    qed
    from g have "status_code (get_news env sched channels limit offset_id sort') = 200"
      by (simp only: status_code_def sum.case)
    with g items total h header_nonempty [OF ne] listed
    show "\<exists>r' h. get_news env sched channels limit offset_id sort' = Inr r' \<and>
         status_code (get_news env sched channels limit offset_id sort') = 200 \<and>
         items (body r') = [] \<and> total (body r') = 0 \<and>
         X_TG_Errors r' = Some h \<and> h \<noteq> [] \<and>
         (\<forall>ch\<in>set ?cl. contains ch h)"
      by blast
  }
qed

lemma errors_header_of_failures_witness:
  "chan_list_of demo_env (Some ''nochan, 17'') = [''nochan'', ''17''] \<and>
   isl (resolve_channel demo_env ''nochan'') \<and> isl (resolve_channel demo_env ''17'') \<and>
   (\<exists>r' h. get_news demo_env [1, 0] (Some ''nochan, 17'') 30 0 ''newest'' = Inr r' \<and>
      status_code (get_news demo_env [1, 0] (Some ''nochan, 17'') 30 0 ''newest'') = 200 \<and>
      items (body r') = [] \<and> total (body r') = 0 \<and> X_TG_Errors r' = Some h \<and> h \<noteq> [] \<and>
      contains ''nochan'' h \<and> contains ''17'' h) \<and>
   X_TG_Errors (projr (get_news demo_env [] (Some ''news, nochan'') 30 0 ''newest'')) \<noteq> None"
proof -
  let ?cl = "chan_list_of demo_env (Some ''nochan, 17'')"
  let ?g = "get_news demo_env [] (Some ''news, nochan'') 30 0 ''newest''"
  have cl: "?cl = [''nochan'', ''17'']" by code_simp
  have f: "isl (resolve_channel demo_env ''nochan'')" "isl (resolve_channel demo_env ''17'')"
    by code_simp+
  then have "\<forall>ch\<in>set ?cl. \<exists>ex. resolve_channel demo_env ch = Inl ex"
    unfolding cl by (simp add: isl_def)
  moreover have "?cl \<noteq> []" unfolding cl by simp
  ultimately have "\<exists>r' h. get_news demo_env [1, 0] (Some ''nochan, 17'') 30 0 ''newest'' = Inr r' \<and>
      status_code (get_news demo_env [1, 0] (Some ''nochan, 17'') 30 0 ''newest'') = 200 \<and>
      items (body r') = [] \<and> total (body r') = 0 \<and> X_TG_Errors r' = Some h \<and> h \<noteq> [] \<and>
      (\<forall>ch\<in>set ?cl. contains ch h)"
    using errors_header_of_failures [of demo_env "[1, 0]" "Some ''nochan, 17''" 30 0 "''newest''"]
    by blast
  then have part2: "\<exists>r' h. get_news demo_env [1, 0] (Some ''nochan, 17'') 30 0 ''newest'' = Inr r' \<and>
      status_code (get_news demo_env [1, 0] (Some ''nochan, 17'') 30 0 ''newest'') = 200 \<and>
      items (body r') = [] \<and> total (body r') = 0 \<and> X_TG_Errors r' = Some h \<and> h \<noteq> [] \<and>
      contains ''nochan'' h \<and> contains ''17'' h"
    unfolding cl by simp
  have "\<not> isl ?g" by code_simp
  then have g: "?g = Inr (projr ?g)" by (rule returned)
  have c2: "chan_list_of demo_env (Some ''news, nochan'') = [''news'', ''nochan'']" by code_simp
  have "\<exists>ch\<in>set (chan_list_of demo_env (Some ''news, nochan'')).
          \<exists>ex. resolve_channel demo_env ch = Inl ex"
    unfolding c2 using f(1) by (simp add: isl_def)
  with errors_header_of_failures [of demo_env "[]" "Some ''news, nochan''" 30 0 "''newest''"
      "projr ?g"] g
  have "X_TG_Errors (projr ?g) \<noteq> None" by blast
  with cl f part2 show ?thesis by blast
qed

text \<open>
  C1 (the code at a failing input). The channel \<^verbatim>\<open>down\<close> resolves, and the fetch of its
  messages raises. Nothing in \<^verbatim>\<open>fetch_one\<close> catches that: the exception leaves the task,
  \<^verbatim>\<open>gather\<close> raises it in the handler and the request is answered 500, the messages of the
  channel \<^verbatim>\<open>news\<close> lost with it. A failure of the resolution, in the same task, is caught.
\<close>

theorem fetch_failure_aborts_request:
  "resolve_channel demo_env ''down'' = Inr (channel 3 ''Down'' None) \<and>
   get_messages demo_env (channel 3 ''Down'' None) 30 0 =
     Inl (OtherError ''ConnectionError'' ''Connection lost'') \<and>
   fetch_one demo_env 30 0 ''down'' [] =
     Inl (Telethon (OtherError ''ConnectionError'' ''Connection lost'')) \<and>
   get_news demo_env [] (Some ''news,down'') 30 0 ''newest'' =
     Inl (Telethon (OtherError ''ConnectionError'' ''Connection lost'')) \<and>
   status_code (get_news demo_env [] (Some ''news,down'') 30 0 ''newest'') = 500"
  by code_simp

end
